theory Spec2Isabelle
  imports Complex_Main "HOL-Library.Word"
begin

section \<open>Machine types of the sketch\<close>

text \<open>
  The sketch is written for the AVR boards the LCD keypad shield plugs into: \<open>int\<close> and
  \<open>unsigned\<close> are 16 bits wide, \<open>unsigned long\<close> is 32 bits wide and \<open>byte\<close> is 8 bits wide.
  A C integer is the word of its width; a signed variable is read with \<open>sint\<close> and compared
  with \<open><s\<close> and \<open>\<le>s\<close>, an unsigned one is read with \<open>unat\<close> and compared with \<open><\<close> and
  \<open>\<le>\<close>. Arithmetic on words wraps around, which is what the target does.
\<close>

type_synonym u8 = "8 word"
type_synonym u16 = "16 word"
type_synonym u32 = "32 word"

section \<open>Key decoder\<close>

text \<open>
  \<^verbatim>\<open>const int adcKeyVal[] = { 30, 150, 360, 535, 760 };\<close>
  \<^verbatim>\<open>const int NUM_KEYS = (int) (sizeof (adcKeyVal) / sizeof (const int));\<close>

  The decoder below takes the threshold table as its first argument, so that it can be
  studied on every table; the sketch runs it on \<open>adcKeyVal\<close>.
\<close>

definition adcKeyVal :: "u16 list" where
  "adcKeyVal = [30, 150, 360, 535, 760]"

definition NUM_KEYS :: "u16 list \<Rightarrow> u16" where
  "NUM_KEYS keyVal = of_nat (length keyVal)"

text \<open>
  The \<open>for\<close> loop of \<open>getKey\<close>, from the counter \<open>k\<close> on. \<open>Inl k\<close> is the \<open>return k\<close> inside
  the loop, \<open>Inr k\<close> is leaving the loop with the counter at \<open>k\<close>. The counter is a signed
  \<open>int\<close>, so \<open>k < NUM_KEYS\<close> is a signed comparison. In \<open>input < adcKeyVal[k]\<close> the left
  operand is \<open>unsigned int\<close>, so the threshold is converted to \<open>unsigned int\<close> and the
  comparison is the unsigned one: \<open><\<close> on words.
\<close>

function getKey_loop :: "u16 list \<Rightarrow> u16 \<Rightarrow> u16 \<Rightarrow> u16 + u16" where
  "getKey_loop keyVal input k =
     (if k <s NUM_KEYS keyVal then
        (if input < keyVal ! unat k then Inl k
         else getKey_loop keyVal input (k + 1))
      else Inr k)"
  by pat_completeness auto
termination
proof (relation "measure (\<lambda>(keyVal, input, k). nat (sint (NUM_KEYS keyVal) - sint k))")
  show "wf (measure (\<lambda>(keyVal, input, k). nat (sint (NUM_KEYS keyVal) - sint k)))"
    by simp
next
  fix keyVal :: "u16 list" and input k :: u16
  assume "k <s NUM_KEYS keyVal"
  then have less: "sint k < sint (NUM_KEYS keyVal)"
    by (simp add: word_sless_alt)
  have "sint (NUM_KEYS keyVal) < 2 ^ 15"
    using sint_lt [of "NUM_KEYS keyVal"] by simp
  moreover have "- (2 ^ 15) \<le> sint k"
    using sint_ge [of k] by simp
  ultimately have "- (2 ^ 15) \<le> sint k + 1" and "sint k + 1 < 2 ^ 15"
    using less by auto
  then have "signed_take_bit 15 (sint k + 1) = sint k + 1"
    by (simp add: signed_take_bit_int_eq_self)
  then have "sint (k + 1) = sint k + 1"
    by (simp add: sint_word_ariths)
  with less
  show "((keyVal, input, k + 1), (keyVal, input, k))
          \<in> measure (\<lambda>(keyVal, input, k). nat (sint (NUM_KEYS keyVal) - sint k))"
    by simp
qed

text \<open>
  \<open>getKey\<close>: the loop from \<open>k = 0\<close>, then \<^verbatim>\<open>if (k >= NUM_KEYS) k = -1; return k;\<close>.
\<close>

definition getKey :: "u16 list \<Rightarrow> u16 \<Rightarrow> u16" where
  "getKey keyVal input =
     (case getKey_loop keyVal input 0 of
        Inl k \<Rightarrow> k
      | Inr k \<Rightarrow> (if NUM_KEYS keyVal \<le>s k then - 1 else k))"

text \<open>
  The band of key \<open>k\<close>: the samples below the \<open>k\<close>-th threshold and not below the one
  before it.
\<close>

definition in_band :: "u16 list \<Rightarrow> u16 \<Rightarrow> nat \<Rightarrow> bool" where
  "in_band keyVal s k \<longleftrightarrow>
     k < length keyVal \<and> s < keyVal ! k \<and> (k = 0 \<or> keyVal ! (k - 1) \<le> s)"

section \<open>Sensor registry\<close>

text \<open>
  \<^verbatim>\<open>typedef struct sensorT { int pin; void (*handler) (const int index); } sensorT;\<close>
  The handler is a pointer to one of the three handler functions of the sketch.
\<close>

datatype handlerT = tempSensorHandler | lightSensorHandler | pirSensorHandler

record sensorT =
  pin :: u16
  handler :: handlerT

definition sensors :: "sensorT list" where
  "sensors =
     [\<lparr>pin = 2, handler = tempSensorHandler\<rparr>,
      \<lparr>pin = 3, handler = lightSensorHandler\<rparr>,
      \<lparr>pin = 3, handler = pirSensorHandler\<rparr>]"

text \<open>\<^verbatim>\<open>const int NUM_SENSORS = (int) (sizeof (sensors) / sizeof (const sensorT));\<close>\<close>

definition NUM_SENSORS :: u16 where
  "NUM_SENSORS = of_nat (length sensors)"

section \<open>Keypad poller\<close>

text \<open>
  The global variables the poller reads and writes: \<^verbatim>\<open>int adcKeyIn, key;\<close> and
  \<^verbatim>\<open>int sensorIndex = 0;\<close>. Variables of static storage without an initialiser start at 0.
\<close>

record globals =
  adcKeyIn :: u16
  key :: u16
  sensorIndex :: u16

definition startup :: globals where
  "startup = \<lparr>adcKeyIn = 0, key = 0, sensorIndex = 0\<rparr>"

text \<open>
  \<open>checkLCDKeypad\<close>. The table of thresholds and the number of sensors are arguments (the
  sketch runs it with \<open>adcKeyVal\<close> and \<open>NUM_SENSORS\<close>). \<open>r1\<close> and \<open>r2\<close> are what the two calls
  \<open>analogRead(keypadPin)\<close> return; the second call is made only when the first sample
  decodes to a key. \<open>delay(BOUNCE_DURATION)\<close> changes no variable. The \<open>switch\<close> has the
  cases 1 and 2 and no default.
\<close>

definition checkLCDKeypad :: "u16 list \<Rightarrow> u16 \<Rightarrow> u16 \<Rightarrow> u16 \<Rightarrow> globals \<Rightarrow> globals" where
  "checkLCDKeypad keyVal numSensors r1 r2 g =
     (let g = g\<lparr>adcKeyIn := r1\<rparr>;
          g = g\<lparr>key := getKey keyVal (adcKeyIn g)\<rparr>
      in if key g \<noteq> - 1 then
           (let g = g\<lparr>adcKeyIn := r2\<rparr>;
                g = g\<lparr>key := getKey keyVal (adcKeyIn g)\<rparr>
            in if 0 \<le>s key g then
                 (let g = (if key g = 1 then g\<lparr>sensorIndex := sensorIndex g + 1\<rparr>
                           else if key g = 2 then g\<lparr>sensorIndex := sensorIndex g - 1\<rparr>
                           else g);
                      g = (if sensorIndex g <s 0
                           then g\<lparr>sensorIndex := numSensors - 1\<rparr> else g);
                      g = (if numSensors \<le>s sensorIndex g
                           then g\<lparr>sensorIndex := 0\<rparr> else g)
                  in g)
               else g)
         else g)"

text \<open>
  The timer calls the poller again and again; \<open>run\<close> is a sequence of its invocations,
  one pair of analog readings for each. The other timer action, \<open>updateLCDScreen\<close>, only
  reads \<open>sensorIndex\<close>. The states the sketch can be in are \<open>run keyVal n rs startup\<close>.
\<close>

fun run :: "u16 list \<Rightarrow> u16 \<Rightarrow> (u16 \<times> u16) list \<Rightarrow> globals \<Rightarrow> globals" where
  "run keyVal numSensors [] g = g"
| "run keyVal numSensors ((r1, r2) # rs) g =
     run keyVal numSensors rs (checkLCDKeypad keyVal numSensors r1 r2 g)"

text \<open>The selected index is valid: \<open>0 <= sensorIndex && sensorIndex < numSensors\<close>.\<close>

definition index_ok :: "u16 \<Rightarrow> globals \<Rightarrow> bool" where
  "index_ok numSensors g \<longleftrightarrow> 0 \<le>s sensorIndex g \<and> sensorIndex g <s numSensors"

section \<open>Number formatter\<close>

text \<open>
  The formatter writes through a \<open>char *\<close> into memory of the caller. \<open>mem\<close> is the
  caller's array of characters, and a pointer into it is the index of a cell; the null
  pointer is \<open>None\<close>. A write to a cell the array does not have is a fault: the function
  then returns \<open>None\<close> (where the C program has undefined behaviour).
\<close>

type_synonym mem = "char list"

definition store :: "mem \<Rightarrow> nat \<Rightarrow> char \<Rightarrow> mem option" where
  "store m a c = (if a < length m then Some (m[a := c]) else None)"

text \<open>The string a pointer points at: the characters before the first \<open>'\0'\<close>.\<close>

definition c_str :: "mem \<Rightarrow> nat \<Rightarrow> string" where
  "c_str m a = takeWhile (\<lambda>c. c \<noteq> CHR 0x00) (drop a m)"

subsection \<open>Unsigned integers\<close>

text \<open>\<^verbatim>\<open>(value % 10) + '0'\<close>, stored in a \<open>char\<close>.\<close>

definition digit :: "u32 \<Rightarrow> char" where
  "digit value = char_of (unat (value mod 10) + of_char (CHR ''0''))"

text \<open>
  The first loop of \<open>fmt_unsigned\<close>: the digits of \<open>value\<close>, least significant first, go
  into the local array \<open>dbuf\<close> of \<open>sizeof (dbuf)\<close> = 10 characters; \<open>idx\<close> counts them.
  \<^verbatim>\<open>while (idx < sizeof (dbuf)) { dbuf[idx++] = (value % 10) + '0'; if ((value /= 10) == 0) break; }\<close>
\<close>

function fmt_digits :: "u32 \<Rightarrow> char list \<Rightarrow> nat \<Rightarrow> char list \<times> nat" where
  "fmt_digits value dbuf idx =
     (if idx < length dbuf then
        (let dbuf' = dbuf[idx := digit value];
             idx' = idx + 1;
             value' = value div 10
         in if value' = 0 then (dbuf', idx') else fmt_digits value' dbuf' idx')
      else (dbuf, idx))"
  by pat_completeness auto
termination
  by (relation "measure (\<lambda>(value, dbuf, idx). length dbuf - idx)") auto

text \<open>
  The second loop: the padding and then the digits, most significant first, go to the
  target buffer while room is left.
  \<^verbatim>\<open>while ((--blen > 0) && (idx || padding)) {\<close>
  \<^verbatim>\<open>  if (padding) padding--; else c = dbuf[--idx];\<close>
  \<^verbatim>\<open>  *buf++ = c; len++; }\<close>
  The result is the pointer \<open>buf\<close>, the count \<open>len\<close> and the memory when the loop is left.
\<close>

function fmt_copy ::
  "u16 \<Rightarrow> nat \<Rightarrow> u8 \<Rightarrow> char \<Rightarrow> char list \<Rightarrow> nat \<Rightarrow> u16 \<Rightarrow> mem \<Rightarrow> (nat \<times> u16 \<times> mem) option"
where
  "fmt_copy blen idx padding c dbuf buf len m =
     (let blen' = blen - 1 in
      if 0 < blen' \<and> (idx \<noteq> 0 \<or> padding \<noteq> 0) then
        (let padding' = (if padding \<noteq> 0 then padding - 1 else padding);
             idx' = (if padding \<noteq> 0 then idx else idx - 1);
             c' = (if padding \<noteq> 0 then c else dbuf ! idx')
         in case store m buf c' of
              None \<Rightarrow> None
            | Some m' \<Rightarrow> fmt_copy blen' idx' padding' c' dbuf (buf + 1) (len + 1) m')
      else Some (buf, len, m))"
  by pat_completeness auto
termination
proof (relation "measure (\<lambda>(blen, idx, padding, c, dbuf, buf, len, m). idx + unat padding)")
  show "wf (measure (\<lambda>(blen, idx, padding, c, dbuf, buf, len, m). idx + unat padding))"
    by simp
next
  fix blen :: u16 and idx :: nat and padding :: u8 and c :: char and dbuf :: "char list"
    and buf :: nat and len :: u16 and m :: mem
    and blen' :: u16 and padding' :: u8 and idx' :: nat and c' :: char and m' :: mem
  assume "0 < blen' \<and> (idx \<noteq> 0 \<or> padding \<noteq> 0)"
    and "padding' = (if padding \<noteq> 0 then padding - 1 else padding)"
    and "idx' = (if padding \<noteq> 0 then idx else idx - 1)"
  then have "idx' + unat padding' < idx + unat padding"
    by (auto simp: unat_minus_one unat_gt_0)
  then show "((blen', idx', padding', c', dbuf, buf + 1, len + 1, m'),
         (blen, idx, padding, c, dbuf, buf, len, m))
       \<in> measure (\<lambda>(blen, idx, padding, c, dbuf, buf, len, m). idx + unat padding)"
    by simp
qed

text \<open>
  \<open>fmt_unsigned\<close>. The cells of \<open>dbuf\<close> hold indeterminate characters until the first
  loop writes them; the second loop reads only cells below \<open>idx\<close>, which are written.
  \<open>idx\<close> is an \<open>unsigned\<close> that stays between 0 and 10 and is kept as a natural number;
  \<open>blen\<close> and \<open>len\<close> are \<open>unsigned\<close>, words of 16 bits.
  \<open>width\<close> is a \<open>byte\<close>; \<open>width > idx\<close> and \<open>width - idx\<close> are computed in \<open>unsigned\<close>, and the
  difference, at most 255, is stored in the \<open>byte\<close> \<open>padding\<close>.
\<close>

definition fmt_unsigned :: "u32 \<Rightarrow> nat option \<Rightarrow> u16 \<Rightarrow> u8 \<Rightarrow> mem \<Rightarrow> (u16 \<times> mem) option" where
  "fmt_unsigned value buf blen width m =
     (case buf of
        None \<Rightarrow> Some (0, m)
      | Some b \<Rightarrow>
          if blen = 0 then Some (0, m)
          else
            (let (dbuf, idx) = fmt_digits value (replicate 10 (CHR 0x00)) 0;
                 padding = (if idx < unat width then of_nat (unat width - idx) else 0)
             in case fmt_copy blen idx padding (CHR ''0'') dbuf b 0 m of
                  None \<Rightarrow> None
                | Some (b', len, m') \<Rightarrow>
                    (case store m' b' (CHR 0x00) of
                       None \<Rightarrow> None
                     | Some m'' \<Rightarrow> Some (len, m''))))"

text \<open>The decimal numeral of a number, most significant digit first.\<close>

fun decimal :: "nat \<Rightarrow> string" where
  "decimal n =
     (if n < 10 then [''0123456789'' ! n]
      else decimal (n div 10) @ [''0123456789'' ! (n mod 10)])"

text \<open>The decimal numeral of \<open>n\<close>, padded with leading zeros to at least \<open>width\<close> characters.\<close>

definition padded :: "nat \<Rightarrow> nat \<Rightarrow> string" where
  "padded width n = replicate (width - length (decimal n)) (CHR ''0'') @ decimal n"

text \<open>What the second loop still has to write: the padding, then the digits.\<close>

definition pending :: "u8 \<Rightarrow> nat \<Rightarrow> char list \<Rightarrow> string" where
  "pending padding idx dbuf = replicate (unat padding) (CHR ''0'') @ rev (take idx dbuf)"

text \<open>What it writes: as much of that as a buffer of \<open>blen\<close> characters with its \<open>'\0'\<close> holds.\<close>

definition written :: "u16 \<Rightarrow> u8 \<Rightarrow> nat \<Rightarrow> char list \<Rightarrow> string" where
  "written blen padding idx dbuf = take (unat blen - 1) (pending padding idx dbuf)"

subsection \<open>Floating-point numbers\<close>

text \<open>
  The arithmetic of \<open>double\<close> belongs to the compiler and its run-time library, not to the
  sketch. \<open>fmt_double\<close> is modelled over any type \<open>'d\<close> of floating-point values, with the
  operations it uses: \<open>value < 0.0\<close>, \<open>-value\<close>, the constant \<open>0.5\<close>, \<open>x / 10.0\<close>,
  \<open>+\<close>, \<open>-\<close>, \<open>*\<close>, and the conversions to and from \<open>unsigned long\<close>. The conversion to
  \<open>unsigned long\<close> of a value that does not fit is undefined in C; here it is whatever the
  instance returns.
\<close>

record 'd fpu =
  d_lt0 :: "'d \<Rightarrow> bool"
  d_neg :: "'d \<Rightarrow> 'd"
  d_half :: "'d"
  d_div10 :: "'d \<Rightarrow> 'd"
  d_add :: "'d \<Rightarrow> 'd \<Rightarrow> 'd"
  d_sub :: "'d \<Rightarrow> 'd \<Rightarrow> 'd"
  d_mul :: "'d \<Rightarrow> 'd \<Rightarrow> 'd"
  d_to_ulong :: "'d \<Rightarrow> u32"
  d_of_ulong :: "u32 \<Rightarrow> 'd"

text \<open>
  \<^verbatim>\<open>for (byte i = 0; i < prec; i++) { roundingFactor /= 10.0; mult *= 10; }\<close>
\<close>

function fmt_factors :: "('d, 'x) fpu_scheme \<Rightarrow> u8 \<Rightarrow> u8 \<Rightarrow> 'd \<Rightarrow> u32 \<Rightarrow> 'd \<times> u32" where
  "fmt_factors F prec i roundingFactor mult =
     (if i < prec then fmt_factors F prec (i + 1) (d_div10 F roundingFactor) (mult * 10)
      else (roundingFactor, mult))"
  by pat_completeness auto
termination
proof (relation "measure (\<lambda>(F, prec, i, roundingFactor, mult). unat prec - unat i)")
  show "wf (measure (\<lambda>(F, prec, i, roundingFactor, mult). unat prec - unat i))"
    by simp
next
  fix F :: "('d, 'x) fpu_scheme" and prec i :: u8 and roundingFactor :: 'd and mult :: u32
  assume "i < prec"
  then have "unat i < unat prec"
    by (simp add: word_less_nat_alt)
  moreover have "unat prec < 2 ^ 8"
    using unsigned_less [of prec] by simp
  ultimately have "unat (i + 1) = unat i + 1"
    by (simp add: unat_word_ariths)
  with \<open>unat i < unat prec\<close>
  show "((F, prec, i + 1, d_div10 F roundingFactor, mult * 10), (F, prec, i, roundingFactor, mult))
          \<in> measure (\<lambda>(F, prec, i, roundingFactor, mult). unat prec - unat i)"
    by simp
qed

text \<open>
  The three parts of the body of \<open>fmt_double\<close>, each with the local variables it changes:
  the sign, the integral portion and the fractional portion.
\<close>

definition fmt_double_sign ::
  "('d, 'x) fpu_scheme \<Rightarrow> 'd \<Rightarrow> nat \<Rightarrow> u16 \<Rightarrow> mem \<Rightarrow> ('d \<times> nat \<times> u16 \<times> mem) option" where
  "fmt_double_sign F value buf blen m =
     (if d_lt0 F value then
        (case store m buf (CHR ''-'') of
           None \<Rightarrow> None
         | Some m' \<Rightarrow> Some (d_neg F value, buf + 1, blen - 1, m'))
      else Some (value, buf, blen, m))"

definition fmt_double_integral ::
  "('d, 'x) fpu_scheme \<Rightarrow> 'd \<Rightarrow> 'd \<Rightarrow> nat \<Rightarrow> u16 \<Rightarrow> mem \<Rightarrow> ('d \<times> nat \<times> u16 \<times> mem) option" where
  "fmt_double_integral F value roundingFactor buf blen m =
     (if 0 < blen then
        (let value = d_add F value roundingFactor
         in case fmt_unsigned (d_to_ulong F value) (Some buf) blen 0 m of
              None \<Rightarrow> None
            | Some (len, m') \<Rightarrow> Some (value, buf + unat len, blen - len, m'))
      else Some (value, buf, blen, m))"

definition fmt_double_fraction ::
  "('d, 'x) fpu_scheme \<Rightarrow> 'd \<Rightarrow> u32 \<Rightarrow> u8 \<Rightarrow> nat \<Rightarrow> u16 \<Rightarrow> mem \<Rightarrow> (nat \<times> mem) option" where
  "fmt_double_fraction F value mult prec buf blen m =
     (if 0 < prec \<and> 0 < blen then
        (case store m buf (CHR ''.'') of
           None \<Rightarrow> None
         | Some m' \<Rightarrow>
             (let buf = buf + 1;
                  blen = blen - 1
              in if 0 < blen then
                   (case fmt_unsigned
                           (d_to_ulong F
                              (d_mul F (d_sub F value (d_of_ulong F (d_to_ulong F value)))
                                 (d_of_ulong F mult)))
                           (Some buf) blen prec m' of
                      None \<Rightarrow> None
                    | Some (len, m'') \<Rightarrow> Some (buf + unat len, m''))
                 else Some (buf, m')))
      else Some (buf, m))"

definition fmt_double ::
  "('d, 'x) fpu_scheme \<Rightarrow> 'd \<Rightarrow> u8 \<Rightarrow> nat option \<Rightarrow> u16 \<Rightarrow> mem \<Rightarrow> mem option" where
  "fmt_double F value prec buf blen m =
     (case buf of
        None \<Rightarrow> Some m
      | Some b \<Rightarrow>
          if blen = 0 then Some m
          else
            (let prec = (if 6 < prec then 6 else prec);
                 blen = blen - 1
             in case (if 0 < blen then
                        (case fmt_double_sign F value b blen m of
                           None \<Rightarrow> None
                         | Some (value, b, blen, m) \<Rightarrow>
                             (let (roundingFactor, mult) = fmt_factors F prec 0 (d_half F) 1
                              in case fmt_double_integral F value roundingFactor b blen m of
                                   None \<Rightarrow> None
                                 | Some (value, b, blen, m) \<Rightarrow>
                                     fmt_double_fraction F value mult prec b blen m))
                      else Some (b, m)) of
                  None \<Rightarrow> None
                | Some (b, m) \<Rightarrow> store m b (CHR 0x00)))"

text \<open>
  An instance to run the model on: arithmetic without rounding error, on the rationals.
  The conversion to \<open>unsigned long\<close> drops the fraction and keeps 32 bits.
\<close>

definition exact_fpu :: "rat fpu" where
  "exact_fpu =
     \<lparr>d_lt0 = (\<lambda>x. x < 0), d_neg = uminus, d_half = 1 / 2, d_div10 = (\<lambda>x. x / 10),
      d_add = (+), d_sub = (-), d_mul = (*),
      d_to_ulong = (\<lambda>x. of_nat (nat \<lfloor>x\<rfloor>)), d_of_ulong = (\<lambda>w. of_nat (unat w))\<rparr>"

text \<open>
  What the body of \<open>fmt_double\<close> computes from a value that is not negative: the rounding
  offset (0.5 divided by 10.0, \<open>prec\<close> times), the value with the offset added, its
  integral portion, and its fractional portion scaled by \<open>mult\<close> = 10 to the power \<open>prec\<close>.
\<close>

definition rounding_offset :: "('d, 'x) fpu_scheme \<Rightarrow> u8 \<Rightarrow> 'd" where
  "rounding_offset F prec = (d_div10 F ^^ unat prec) (d_half F)"

definition rounded :: "('d, 'x) fpu_scheme \<Rightarrow> 'd \<Rightarrow> u8 \<Rightarrow> 'd" where
  "rounded F value prec = d_add F value (rounding_offset F prec)"



subsection \<open>Binary floating-point arithmetic\<close>

text \<open>
  The \<open>double\<close> of the target is a binary floating-point number: 24 significant bits where
  \<open>double\<close> is the single format (avr-gcc), 53 where it is the IEEE double format. A value
  is a pair \<open>(m, e)\<close> of integers and stands for \<open>m * 2 ^ e\<close>. In \<open>binary_fpu p\<close> every
  operation returns the number with \<open>p\<close> significant bits that is nearest to the exact
  result, the one with the even significand at a tie. Exponents are not bounded: overflow
  and underflow are left out.
\<close>

type_synonym bfloat = "int \<times> int"

text \<open>The position of the leading bit of a positive integer.\<close>

function log2floor :: "int \<Rightarrow> int" where
  "log2floor n = (if n < 2 then 0 else log2floor (n div 2) + 1)"
  by pat_completeness auto
termination
  by (relation "measure nat") auto

text \<open>The integer nearest to \<open>n / d\<close>, the even one at a tie.\<close>

definition nearest_even :: "int \<Rightarrow> int \<Rightarrow> int" where
  "nearest_even n d =
     (let f = n div d; r = n mod d
      in if 2 * r < d then f else if d < 2 * r then f + 1 else if even f then f else f + 1)"

text \<open>
  The number with \<open>p\<close> significant bits nearest to \<open>n / d\<close>, for \<open>n\<close> not negative and \<open>d\<close>
  positive: \<open>e\<close> is the exponent of the leading bit of \<open>n / d\<close>, and the significand is
  \<open>n / d\<close> in units of \<open>2 ^ (e - p + 1)\<close>, rounded. This is also how a decimal literal such
  as \<open>3.14159\<close> becomes a \<open>double\<close>: \<open>round_ratio p 314159 100000\<close>.
\<close>

definition round_ratio :: "nat \<Rightarrow> int \<Rightarrow> int \<Rightarrow> bfloat" where
  "round_ratio p n d =
     (if n = 0 then (0, 0)
      else
        (let e0 = log2floor n - log2floor d;
             e = (if d * 2 ^ nat e0 \<le> n * 2 ^ nat (- e0) then e0 else e0 - 1);
             s = e - int p + 1
         in (nearest_even (n * 2 ^ nat (- s)) (d * 2 ^ nat s), s)))"

definition bround :: "nat \<Rightarrow> bfloat \<Rightarrow> bfloat" where
  "bround p x =
     (case x of (m, e) \<Rightarrow>
        (case round_ratio p (\<bar>m\<bar> * 2 ^ nat e) (2 ^ nat (- e)) of
           (q, s) \<Rightarrow> (sgn m * q, s)))"

text \<open>The exact sum, and the integer a value is truncated to.\<close>

definition bplus :: "bfloat \<Rightarrow> bfloat \<Rightarrow> bfloat" where
  "bplus x y =
     (case x of (m1, e1) \<Rightarrow> case y of (m2, e2) \<Rightarrow>
        (let e = min e1 e2 in (m1 * 2 ^ nat (e1 - e) + m2 * 2 ^ nat (e2 - e), e)))"

definition btrunc :: "bfloat \<Rightarrow> int" where
  "btrunc x = (case x of (m, e) \<Rightarrow> sgn m * (\<bar>m\<bar> * 2 ^ nat e div 2 ^ nat (- e)))"

definition binary_fpu :: "nat \<Rightarrow> bfloat fpu" where
  "binary_fpu p =
     \<lparr>d_lt0 = (\<lambda>x. fst x < 0),
      d_neg = (\<lambda>x. (- fst x, snd x)),
      d_half = (1, - 1),
      d_div10 = (\<lambda>x. case round_ratio p (\<bar>fst x\<bar> * 2 ^ nat (snd x)) (10 * 2 ^ nat (- snd x)) of
                         (q, s) \<Rightarrow> (sgn (fst x) * q, s)),
      d_add = (\<lambda>x y. bround p (bplus x y)),
      d_sub = (\<lambda>x y. bround p (bplus x (- fst y, snd y))),
      d_mul = (\<lambda>x y. bround p (fst x * fst y, snd x + snd y)),
      d_to_ulong = (\<lambda>x. of_int (btrunc x)),
      d_of_ulong = (\<lambda>w. bround p (uint w, 0))\<rparr>"


section \<open>Properties of the key decoder\<close>

lemma sint_of_nat16: "n < 2 ^ 15 \<Longrightarrow> sint (of_nat n :: u16) = int n"
proof -
  assume a: "n < 2 ^ 15"
  have "sint (of_nat n :: u16) = signed_take_bit 15 (int n)"
    by (simp add: signed_of_nat)
  also have "\<dots> = int n"
    using a by (simp add: signed_take_bit_int_eq_self)
  finally show ?thesis .
qed

lemma unat_of_nat16: "n < 2 ^ 15 \<Longrightarrow> unat (of_nat n :: u16) = n"
  by (simp add: unat_of_nat)

lemma getKey_loop_step:
  assumes "length keyVal < 2 ^ 15" and "j < length keyVal"
  shows "getKey_loop keyVal s (of_nat j) =
           (if s < keyVal ! j then Inl (of_nat j) else getKey_loop keyVal s (of_nat (Suc j)))"
proof -
  have "j < 2 ^ 15" using assms by simp
  then have "of_nat j <s NUM_KEYS keyVal" "unat (of_nat j :: u16) = j"
    using assms by (simp_all add: word_sless_alt NUM_KEYS_def sint_of_nat16 unat_of_nat16)
  then show ?thesis
    by (subst getKey_loop.simps) (simp add: add.commute)
qed

lemma getKey_loop_exit:
  assumes "length keyVal < 2 ^ 15"
  shows "getKey_loop keyVal s (of_nat (length keyVal)) = Inr (of_nat (length keyVal))"
  by (subst getKey_loop.simps) (simp add: word_sless_alt NUM_KEYS_def)

lemma getKey_loop_none:
  assumes "length keyVal < 2 ^ 15" and "j \<le> length keyVal"
    and "\<And>i. j \<le> i \<Longrightarrow> i < length keyVal \<Longrightarrow> keyVal ! i \<le> s"
  shows "getKey_loop keyVal s (of_nat j) = Inr (of_nat (length keyVal))"
  using assms(2,3)
proof (induction "length keyVal - j" arbitrary: j)
  case 0
  then show ?case using getKey_loop_exit [OF assms(1)] by simp
next
  case (Suc d)
  then have j: "j < length keyVal" by simp
  have "\<not> s < keyVal ! j" using Suc.prems(2) [of j] j by (simp add: not_less)
  moreover have "getKey_loop keyVal s (of_nat (Suc j)) = Inr (of_nat (length keyVal))"
    using Suc.hyps(1) [of "Suc j"] Suc.hyps(2) Suc.prems j by simp
  ultimately show ?case
    using getKey_loop_step [OF assms(1) j] by simp
qed

lemma getKey_loop_found:
  assumes "length keyVal < 2 ^ 15" and "j \<le> k" and "k < length keyVal"
    and "s < keyVal ! k"
    and "\<And>i. j \<le> i \<Longrightarrow> i < k \<Longrightarrow> keyVal ! i \<le> s"
  shows "getKey_loop keyVal s (of_nat j) = Inl (of_nat k)"
  using assms(2,5)
proof (induction "k - j" arbitrary: j)
  case 0
  then have "j = k" by simp
  then show ?case
    using getKey_loop_step [OF assms(1), of k s] assms(3,4) by simp
next
  case (Suc d)
  then have j: "j < k" by simp
  then have jl: "j < length keyVal" using assms(3) by simp
  have "\<not> s < keyVal ! j" using Suc.prems(2) [of j] j by (simp add: not_less)
  moreover have "getKey_loop keyVal s (of_nat (Suc j)) = Inl (of_nat k)"
    using Suc.hyps(1) [of "Suc j"] Suc.hyps(2) Suc.prems j by simp
  ultimately show ?case
    using getKey_loop_step [OF assms(1) jl] by simp
qed

text \<open>
  For thresholds that are not negative as \<open>int\<close> values, ascending as \<open>int\<close> values is
  ascending in the unsigned order the decoder compares in.
\<close>

lemma sorted_thresholds:
  fixes keyVal :: "u16 list"
  assumes "\<forall>t\<in>set keyVal. 0 \<le> sint t" and "sorted_wrt (\<lambda>a b. sint a \<le> sint b) keyVal"
  shows "sorted keyVal"
proof -
  have same: "sint t = uint t" if "t \<in> set keyVal" for t
  proof -
    have "0 \<le> sint t" and "sint t < 2 ^ 16"
      using assms(1) that sint_lt [of t] by simp_all
    then have "take_bit 16 (sint t) = sint t"
      by (rule take_bit_int_eq_self)
    then show ?thesis by (simp add: uint_sint)
  qed
  have "a \<le> b" if "a \<in> set keyVal" "b \<in> set keyVal" "sint a \<le> sint b" for a b
    using that same [of a] same [of b] by (simp add: word_le_def)
  then have "sorted_wrt (\<le>) keyVal"
    using assms(2) by (rule_tac sorted_wrt_mono_rel) auto
  then show ?thesis by simp
qed

lemma adcKeyVal_ascending:
  "\<forall>t\<in>set adcKeyVal. 0 \<le> sint t" "sorted_wrt (\<lambda>a b. sint a \<le> sint b) adcKeyVal"
  by (simp_all add: adcKeyVal_def)

text \<open>
  Claim C1. For every ascending table of thresholds (of a size that \<open>NUM_KEYS\<close>, an \<open>int\<close>,
  can hold) and every raw sample \<open>s\<close>: when \<open>s\<close> is greater than or equal to every
  threshold, \<open>getKey\<close> returns -1 (no key); otherwise it returns the index \<open>k\<close> with
  \<open>s < threshold[k]\<close> and (\<open>k = 0\<close> or \<open>s \<ge> threshold[k-1]\<close>), and \<open>k\<close> is the only index with
  that property. Ascending is meant in the order in which the decoder compares a sample
  with a threshold, the unsigned one; for thresholds that are not negative, as the
  boundaries of an analog reading are, it is the order of the \<open>int\<close> values.
\<close>

theorem getKey_band:
  assumes "sorted keyVal" and "length keyVal < 2 ^ 15"
  shows "if \<forall>t\<in>set keyVal. t \<le> s then getKey keyVal s = - 1
         else \<exists>k. getKey keyVal s = of_nat k \<and> sint (getKey keyVal s) = int k \<and>
                in_band keyVal s k \<and> (\<forall>j. in_band keyVal s j \<longrightarrow> j = k)"
proof (cases "\<forall>t\<in>set keyVal. t \<le> s")
  case True
  then have "getKey_loop keyVal s (of_nat 0) = Inr (of_nat (length keyVal))"
    by (intro getKey_loop_none assms) simp_all
  then show ?thesis
    using True by (simp add: getKey_def NUM_KEYS_def)
next
  case False
  then obtain i where i: "i < length keyVal" "s < keyVal ! i"
    by (auto simp: in_set_conv_nth not_le)
  define k where "k = (LEAST i. i < length keyVal \<and> s < keyVal ! i)"
  have k: "k < length keyVal" "s < keyVal ! k"
    using LeastI [of "\<lambda>i. i < length keyVal \<and> s < keyVal ! i" i] i
    by (simp_all add: k_def)
  have least: "keyVal ! j \<le> s" if "j < k" for j
  proof -
    have "\<not> (j < length keyVal \<and> s < keyVal ! j)"
      using not_less_Least [of j "\<lambda>i. i < length keyVal \<and> s < keyVal ! i"] that
      by (simp add: k_def)
    then show ?thesis using that k(1) by (simp add: not_less)
  qed
  have "getKey_loop keyVal s (of_nat 0) = Inl (of_nat k)"
    by (rule getKey_loop_found [OF assms(2) _ k]) (simp_all add: least)
  then have ret: "getKey keyVal s = of_nat k"
    by (simp add: getKey_def)
  have "k < 2 ^ 15" using k(1) assms(2) by simp
  then have val: "sint (getKey keyVal s) = int k"
    by (simp add: ret sint_of_nat16)
  have band: "in_band keyVal s k"
  proof (cases "k = 0")
    case True
    then show ?thesis using k by (simp add: in_band_def)
  next
    case False
    then have "keyVal ! (k - 1) \<le> s" by (intro least) simp
    then show ?thesis using k by (simp add: in_band_def)
  qed
  have uniq: "j = k" if "in_band keyVal s j" for j
  proof (rule ccontr)
    assume "j \<noteq> k"
    from that have j: "j < length keyVal" "s < keyVal ! j" "j = 0 \<or> keyVal ! (j - 1) \<le> s"
      by (simp_all add: in_band_def)
    have "\<not> j < k" using least [of j] j(2) by auto
    with \<open>j \<noteq> k\<close> have "k < j" by simp
    then have "k \<le> j - 1" "j - 1 < length keyVal" "j \<noteq> 0" using j(1) by simp_all
    then have "keyVal ! k \<le> keyVal ! (j - 1)"
      using assms(1) by (simp add: sorted_nth_mono)
    with j(3) \<open>j \<noteq> 0\<close> k(2) show False by simp
  qed
  have found: "\<exists>k. getKey keyVal s = of_nat k \<and> sint (getKey keyVal s) = int k \<and>
          in_band keyVal s k \<and> (\<forall>j. in_band keyVal s j \<longrightarrow> j = k)"
    using ret val band uniq by blast
  show ?thesis
    by (subst if_not_P [OF False]) (rule found)
qed

theorem getKey_band_witness:
  "sorted adcKeyVal \<and> length adcKeyVal < 2 ^ 15 \<and> (\<exists>t\<in>set adcKeyVal. \<not> t \<le> 100) \<and>
   getKey adcKeyVal 100 = 1 \<and> in_band adcKeyVal 100 1 \<and>
   getKey adcKeyVal 1000 = - 1"
proof -
  have s: "sorted adcKeyVal" and l: "length adcKeyVal < 2 ^ 15"
    by (simp_all add: adcKeyVal_def)
  have ex: "\<not> (\<forall>t\<in>set adcKeyVal. t \<le> 100)"
    by (simp add: adcKeyVal_def)
  have all: "\<forall>t\<in>set adcKeyVal. t \<le> 1000"
    by (simp add: adcKeyVal_def)
  have "\<exists>k. getKey adcKeyVal 100 = of_nat k \<and> sint (getKey adcKeyVal 100) = int k \<and>
          in_band adcKeyVal 100 k \<and> (\<forall>j. in_band adcKeyVal 100 j \<longrightarrow> j = k)"
    using getKey_band [OF s l, of 100] by (subst (asm) if_not_P [OF ex])
  then obtain k where k: "getKey adcKeyVal 100 = of_nat k"
    and u: "\<And>j. in_band adcKeyVal 100 j \<Longrightarrow> j = k"
    by blast
  have b: "in_band adcKeyVal 100 1"
    by (simp add: in_band_def adcKeyVal_def)
  have "k = 1" using u [OF b] by simp
  then have up: "getKey adcKeyVal 100 = 1" using k by simp
  have none: "getKey adcKeyVal 1000 = - 1"
    using getKey_band [OF s l, of 1000] by (subst (asm) if_P [OF all])
  from ex have ex': "\<exists>t\<in>set adcKeyVal. \<not> t \<le> 100" by blast
  from s l ex' up b none show ?thesis by blast
qed

section \<open>Properties of the keypad poller\<close>

lemma sint_succ16:
  fixes x :: u16
  assumes "sint x < 2 ^ 15 - 1"
  shows "sint (x + 1) = sint x + 1"
proof -
  have "- (2 ^ 15) \<le> sint x"
    using sint_ge [of x] by simp
  then have "signed_take_bit 15 (sint x + 1) = sint x + 1"
    using assms by (simp add: signed_take_bit_int_eq_self)
  then show ?thesis
    by (simp add: sint_word_ariths)
qed

lemma sint_pred16:
  fixes x :: u16
  assumes "- (2 ^ 15) < sint x"
  shows "sint (x - 1) = sint x - 1"
proof -
  have "sint x < 2 ^ 15"
    using sint_lt [of x] by simp
  then have "signed_take_bit 15 (sint x - 1) = sint x - 1"
    using assms by (simp add: signed_take_bit_int_eq_self)
  then show ?thesis
    by (simp add: sint_word_ariths)
qed

text \<open>The bounds check at the end of the poller, on a valid index moved by one.\<close>

lemma wrap_up:
  fixes i n :: u16
  assumes "0 \<le>s i" and "i <s n"
  shows "\<not> i + 1 <s 0" and "n \<le>s i + 1 \<Longrightarrow> i + 1 = n" and "\<not> n \<le>s i + 1 \<Longrightarrow> i + 1 <s n"
    and "0 <s n"
proof -
  have b: "0 \<le> sint i" "sint i < sint n" "sint n < 2 ^ 15"
    using assms sint_lt [of n] by (simp_all add: word_sle_eq word_sless_alt)
  then have s: "sint (i + 1) = sint i + 1"
    by (intro sint_succ16) simp
  show "\<not> i + 1 <s 0" using b s by (simp add: word_sless_alt)
  show "0 <s n" using b by (simp add: word_sless_alt)
  show "i + 1 <s n" if "\<not> n \<le>s i + 1"
    using that by (simp add: word_sle_eq word_sless_alt)
  show "i + 1 = n" if "n \<le>s i + 1"
  proof -
    have "sint (i + 1) = sint n" using that b s by (simp add: word_sle_eq)
    then show ?thesis by (rule signed_word_eqI)
  qed
qed

lemma wrap_down:
  fixes i n :: u16
  assumes "0 \<le>s i" and "i <s n"
  shows "i - 1 <s 0 \<Longrightarrow> i = 0" and "\<not> i - 1 <s 0 \<Longrightarrow> 0 \<le>s i - 1"
    and "\<not> n \<le>s i - 1" and "0 \<le>s n - 1" and "n - 1 <s n"
proof -
  have b: "0 \<le> sint i" "sint i < sint n" "sint n < 2 ^ 15"
    using assms sint_lt [of n] by (simp_all add: word_sle_eq word_sless_alt)
  then have s: "sint (i - 1) = sint i - 1"
    by (intro sint_pred16) simp
  have t: "sint (n - 1) = sint n - 1"
    using b by (intro sint_pred16) simp
  show "\<not> n \<le>s i - 1" using b s by (simp add: word_sle_eq)
  show "0 \<le>s n - 1" using b t by (simp add: word_sle_eq)
  show "n - 1 <s n" using t by (simp add: word_sless_alt)
  show "0 \<le>s i - 1" if "\<not> i - 1 <s 0"
    using that by (simp add: word_sle_eq word_sless_alt)
  show "i = 0" if "i - 1 <s 0"
  proof -
    have "sint i = sint (0 :: u16)" using that b s by (simp add: word_sless_alt)
    then show ?thesis by (rule signed_word_eqI)
  qed
qed

lemma sensorIndex_checkLCDKeypad:
  "sensorIndex (checkLCDKeypad keyVal n r1 r2 g) =
     (if getKey keyVal r1 \<noteq> - 1 \<and> 0 \<le>s getKey keyVal r2 then
        (let i = (if getKey keyVal r2 = 1 then sensorIndex g + 1
                  else if getKey keyVal r2 = 2 then sensorIndex g - 1
                  else sensorIndex g);
             i = (if i <s 0 then n - 1 else i)
         in if n \<le>s i then 0 else i)
      else sensorIndex g)"
  by (simp add: checkLCDKeypad_def Let_def)

lemma checkLCDKeypad_keeps_index:
  assumes "index_ok n g"
  shows "index_ok n (checkLCDKeypad keyVal n r1 r2 g)"
proof -
  have i: "0 \<le>s sensorIndex g" "sensorIndex g <s n"
    using assms by (simp_all add: index_ok_def)
  note up = wrap_up [OF i] and down = wrap_down [OF i]
  have "\<not> sensorIndex g <s 0" "\<not> n \<le>s sensorIndex g"
    using i by (simp_all add: word_sle_eq word_sless_alt)
  then show ?thesis
    unfolding index_ok_def sensorIndex_checkLCDKeypad Let_def
    using i up down by (auto simp: word_sle_eq word_sless_alt)
qed

lemma run_keeps_index:
  "index_ok n g \<Longrightarrow> index_ok n (run keyVal n rs g)"
  by (induction rs arbitrary: g) (auto simp: checkLCDKeypad_keeps_index)

lemma startup_index_ok: "0 <s n \<Longrightarrow> index_ok n startup"
  by (simp add: index_ok_def startup_def)


lemma getKey_samples:
  "getKey adcKeyVal 0 = 0" "getKey adcKeyVal 100 = 1" "getKey adcKeyVal 200 = 2"
  "getKey adcKeyVal 1000 = - 1"
  by (simp_all add: getKey_def adcKeyVal_def NUM_KEYS_def word_sless_alt word_sle_eq)

lemma NUM_SENSORS_eq: "NUM_SENSORS = 3"
  by (simp add: NUM_SENSORS_def sensors_def)

text \<open>
  Claim C2. If the selected sensor index is in the range [0, NUM_SENSORS) before an
  invocation of the keypad poller, it is in that range after the invocation, whatever the
  two analog readings are (and whatever the table of thresholds and the number of sensors).
\<close>

theorem checkLCDKeypad_index_in_range:
  assumes "0 \<le> sint (sensorIndex g)" and "sint (sensorIndex g) < sint numSensors"
  shows "0 \<le> sint (sensorIndex (checkLCDKeypad keyVal numSensors r1 r2 g)) \<and>
         sint (sensorIndex (checkLCDKeypad keyVal numSensors r1 r2 g)) < sint numSensors"
proof -
  have "index_ok numSensors g"
    using assms by (simp add: index_ok_def word_sle_eq word_sless_alt)
  then have "index_ok numSensors (checkLCDKeypad keyVal numSensors r1 r2 g)"
    by (rule checkLCDKeypad_keeps_index)
  then show ?thesis
    by (simp add: index_ok_def word_sle_eq word_sless_alt)
qed

theorem checkLCDKeypad_index_in_range_witness:
  "0 \<le> sint (sensorIndex (startup\<lparr>sensorIndex := 2\<rparr>)) \<and>
   sint (sensorIndex (startup\<lparr>sensorIndex := 2\<rparr>)) < sint NUM_SENSORS \<and>
   0 \<le> sint (sensorIndex (checkLCDKeypad adcKeyVal NUM_SENSORS 100 100 (startup\<lparr>sensorIndex := 2\<rparr>))) \<and>
   sint (sensorIndex (checkLCDKeypad adcKeyVal NUM_SENSORS 100 100 (startup\<lparr>sensorIndex := 2\<rparr>)))
     < sint NUM_SENSORS \<and>
   sensorIndex (checkLCDKeypad adcKeyVal NUM_SENSORS 100 100 (startup\<lparr>sensorIndex := 2\<rparr>)) = 0"
proof -
  have a: "0 \<le> sint (sensorIndex (startup\<lparr>sensorIndex := 2\<rparr>))"
    and b: "sint (sensorIndex (startup\<lparr>sensorIndex := 2\<rparr>)) < sint NUM_SENSORS"
    by (simp_all add: NUM_SENSORS_eq)
  have "sensorIndex (checkLCDKeypad adcKeyVal NUM_SENSORS 100 100 (startup\<lparr>sensorIndex := 2\<rparr>)) = 0"
    by (simp add: sensorIndex_checkLCDKeypad getKey_samples NUM_SENSORS_eq word_sle_eq
        word_sless_alt)
  with a b checkLCDKeypad_index_in_range [OF a b, of adcKeyVal 100 100]
  show ?thesis by simp
qed

text \<open>
  Claim C3. With \<open>N\<close> sensors (\<open>N\<close> at least 1), a confirmed Down press (a first sample that
  decodes to a key, a second one that decodes to key 2) taken from index 0 yields index
  \<open>N - 1\<close>, and a confirmed Up press (second sample decoding to key 1) taken from index
  \<open>N - 1\<close> yields index 0. With 3 sensors, which is what the sketch has, three confirmed Up
  presses in a row starting at index 0 return the index to 0.
\<close>

theorem checkLCDKeypad_wraparound:
  assumes "0 < sint n"
  shows "(getKey keyVal r1 \<noteq> - 1 \<and> getKey keyVal r2 = 2 \<and> sensorIndex g = 0 \<longrightarrow>
            sensorIndex (checkLCDKeypad keyVal n r1 r2 g) = n - 1 \<and>
            sint (sensorIndex (checkLCDKeypad keyVal n r1 r2 g)) = sint n - 1) \<and>
         (getKey keyVal r1 \<noteq> - 1 \<and> getKey keyVal r2 = 1 \<and> sensorIndex g = n - 1 \<longrightarrow>
            sensorIndex (checkLCDKeypad keyVal n r1 r2 g) = 0) \<and>
         (getKey keyVal a1 \<noteq> - 1 \<and> getKey keyVal b1 = 1 \<and>
          getKey keyVal a2 \<noteq> - 1 \<and> getKey keyVal b2 = 1 \<and>
          getKey keyVal a3 \<noteq> - 1 \<and> getKey keyVal b3 = 1 \<and> sensorIndex g = 0 \<longrightarrow>
            sensorIndex (run keyVal 3 [(a1, b1), (a2, b2), (a3, b3)] g) = 0) \<and>
         NUM_SENSORS = 3"
proof -
  have n: "sint (n - 1) = sint n - 1"
    using assms sint_ge [of n] by (intro sint_pred16) simp
  have down: "sensorIndex (checkLCDKeypad keyVal n r1 r2 g) = n - 1"
    if "getKey keyVal r1 \<noteq> - 1" "getKey keyVal r2 = 2" "sensorIndex g = 0"
    using that n by (simp add: sensorIndex_checkLCDKeypad word_sle_eq word_sless_alt)
  have up: "sensorIndex (checkLCDKeypad keyVal n r1 r2 g) = 0"
    if "getKey keyVal r1 \<noteq> - 1" "getKey keyVal r2 = 1" "sensorIndex g = n - 1"
    using that assms by (simp add: sensorIndex_checkLCDKeypad word_sle_eq word_sless_alt)
  have three: "sensorIndex (run keyVal 3 [(a1, b1), (a2, b2), (a3, b3)] g) = 0"
    if "getKey keyVal a1 \<noteq> - 1" "getKey keyVal b1 = 1" "getKey keyVal a2 \<noteq> - 1"
      "getKey keyVal b2 = 1" "getKey keyVal a3 \<noteq> - 1" "getKey keyVal b3 = 1" "sensorIndex g = 0"
    using that by (simp add: sensorIndex_checkLCDKeypad word_sle_eq word_sless_alt)
  show ?thesis
    using down up three n NUM_SENSORS_eq by simp
qed

theorem checkLCDKeypad_wraparound_witness:
  "0 < sint NUM_SENSORS \<and>
   getKey adcKeyVal 200 = 2 \<and> getKey adcKeyVal 100 = 1 \<and> sensorIndex startup = 0 \<and>
   sensorIndex (checkLCDKeypad adcKeyVal NUM_SENSORS 200 200 startup) = 2 \<and>
   sensorIndex (checkLCDKeypad adcKeyVal NUM_SENSORS 100 100 (startup\<lparr>sensorIndex := 2\<rparr>)) = 0 \<and>
   sensorIndex (run adcKeyVal 3 [(100, 100), (100, 100), (100, 100)] startup) = 0"
proof -
  have n: "0 < sint NUM_SENSORS"
    by (simp add: NUM_SENSORS_eq)
  note w = checkLCDKeypad_wraparound [OF n, of adcKeyVal]
  have "sensorIndex (checkLCDKeypad adcKeyVal NUM_SENSORS 200 200 startup) = NUM_SENSORS - 1"
    using w [of 200 200 startup] by (simp add: getKey_samples startup_def)
  moreover
  have "sensorIndex (checkLCDKeypad adcKeyVal NUM_SENSORS 100 100 (startup\<lparr>sensorIndex := 2\<rparr>)) = 0"
    using w [of 100 100 "startup\<lparr>sensorIndex := 2\<rparr>"] by (simp add: getKey_samples NUM_SENSORS_eq)
  moreover
  have "sensorIndex (run adcKeyVal 3 [(100, 100), (100, 100), (100, 100)] startup) = 0"
    using w [of 100 100 startup 100 100 100 100 100 100]
    by (simp add: getKey_samples startup_def NUM_SENSORS_eq)
  ultimately show ?thesis
    using n by (simp add: getKey_samples NUM_SENSORS_eq startup_def)
qed

text \<open>
  Claim C4, as amended. For every invocation of the keypad poller in which the first
  sample decodes to a key but the second (post-debounce) sample decodes to no key (-1),
  the selected sensor index is unchanged by the invocation. (A second sample that decodes
  to a key other than the first one is not rejected: the poller never compares the two
  keys and acts on the second.)
\<close>

theorem checkLCDKeypad_debounce_none:
  assumes "getKey keyVal r1 \<noteq> - 1" and "getKey keyVal r2 = - 1"
  shows "sensorIndex (checkLCDKeypad keyVal numSensors r1 r2 g) = sensorIndex g"
  using assms by (simp add: sensorIndex_checkLCDKeypad word_sle_eq)

theorem checkLCDKeypad_debounce_none_witness:
  "getKey adcKeyVal 100 \<noteq> - 1 \<and> getKey adcKeyVal 1000 = - 1 \<and>
   sensorIndex (checkLCDKeypad adcKeyVal NUM_SENSORS 100 1000 startup) = sensorIndex startup"
proof -
  have a: "getKey adcKeyVal 100 \<noteq> - 1" and b: "getKey adcKeyVal 1000 = - 1"
    by (simp_all add: getKey_samples)
  from a b checkLCDKeypad_debounce_none [OF a b, of NUM_SENSORS startup]
  show ?thesis by simp
qed

text \<open>
  The claim as it was stated fails: the first sample 0 decodes to key 0, the second
  sample 100 decodes to the different key 1 (Up), and the index moves from 0 to 1.
\<close>

theorem checkLCDKeypad_debounce_counterexample:
  "getKey adcKeyVal 0 = 0 \<and> getKey adcKeyVal 100 = 1 \<and>
   getKey adcKeyVal 0 \<noteq> - 1 \<and> getKey adcKeyVal 100 \<noteq> getKey adcKeyVal 0 \<and>
   sensorIndex startup = 0 \<and>
   sensorIndex (checkLCDKeypad adcKeyVal NUM_SENSORS 0 100 startup) = 1 \<and>
   sensorIndex (checkLCDKeypad adcKeyVal NUM_SENSORS 0 100 startup) \<noteq> sensorIndex startup"
  by (simp add: sensorIndex_checkLCDKeypad getKey_samples NUM_SENSORS_eq startup_def
      word_sle_eq word_sless_alt)

text \<open>
  Claim C8. In every state the sketch can reach (any number of poller invocations after
  startup, with at least one sensor), an invocation of the keypad poller whose confirmed
  (second) key is neither the Up key (1) nor the Down key (2) leaves the selected sensor
  index unchanged.
\<close>

theorem checkLCDKeypad_unbound_key:
  assumes "0 < sint numSensors"
    and "getKey keyVal r1 \<noteq> - 1" and "getKey keyVal r2 \<noteq> 1" and "getKey keyVal r2 \<noteq> 2"
  shows "sensorIndex (checkLCDKeypad keyVal numSensors r1 r2 (run keyVal numSensors rs startup))
           = sensorIndex (run keyVal numSensors rs startup)"
proof -
  have "0 <s numSensors"
    using assms(1) by (simp add: word_sless_alt)
  then have "index_ok numSensors (run keyVal numSensors rs startup)"
    by (intro run_keeps_index startup_index_ok)
  then have "\<not> sensorIndex (run keyVal numSensors rs startup) <s 0"
    and "\<not> numSensors \<le>s sensorIndex (run keyVal numSensors rs startup)"
    by (simp_all add: index_ok_def word_sle_eq word_sless_alt)
  then show ?thesis
    using assms(3,4) by (simp add: sensorIndex_checkLCDKeypad)
qed

theorem checkLCDKeypad_unbound_key_witness:
  "0 < sint NUM_SENSORS \<and> getKey adcKeyVal 0 \<noteq> - 1 \<and> getKey adcKeyVal 0 \<noteq> 1 \<and>
   getKey adcKeyVal 0 \<noteq> 2 \<and>
   sensorIndex (run adcKeyVal NUM_SENSORS [(100, 100)] startup) = 1 \<and>
   sensorIndex (checkLCDKeypad adcKeyVal NUM_SENSORS 0 0
                  (run adcKeyVal NUM_SENSORS [(100, 100)] startup)) = 1"
proof -
  have n: "0 < sint NUM_SENSORS"
    by (simp add: NUM_SENSORS_eq)
  have k: "getKey adcKeyVal 0 \<noteq> - 1" "getKey adcKeyVal 0 \<noteq> 1" "getKey adcKeyVal 0 \<noteq> 2"
    by (simp_all add: getKey_samples)
  have r: "sensorIndex (run adcKeyVal NUM_SENSORS [(100, 100)] startup) = 1"
    by (simp add: sensorIndex_checkLCDKeypad getKey_samples NUM_SENSORS_eq startup_def
        word_sle_eq word_sless_alt)
  from checkLCDKeypad_unbound_key [OF n k, of "[(100, 100)]"] r n k
  show ?thesis by simp
qed

text \<open>
  Claim C9, as amended. In the sensor registry as configured, the light sensor's
  descriptor and the motion (PIR) sensor's descriptor have the same pin number, 3
  (\<open>sensors[1].pin == sensors[2].pin\<close>); the temperature sensor's descriptor has pin 2.
\<close>

theorem sensors_shared_pin:
  "pin (sensors ! 1) = pin (sensors ! 2) \<and> pin (sensors ! 1) = 3 \<and> pin (sensors ! 0) = 2 \<and>
   map handler sensors = [tempSensorHandler, lightSensorHandler, pirSensorHandler]"
  by (simp add: sensors_def)

text \<open>
  The claim as it was stated fails: the temperature sensor (entry 0) and the light sensor
  (entry 1) are on different pins.
\<close>

theorem sensors_shared_pin_counterexample:
  "handler (sensors ! 0) = tempSensorHandler \<and> handler (sensors ! 1) = lightSensorHandler \<and>
   pin (sensors ! 0) \<noteq> pin (sensors ! 1)"
  by (simp add: sensors_def)

section \<open>Properties of the number formatter\<close>

declare fmt_digits.simps [simp del]
declare fmt_copy.simps [simp del]
declare fmt_factors.simps [simp del]
declare decimal.simps [simp del]

lemma digit_table: "d < 10 \<Longrightarrow> char_of (d + 48 :: nat) = ''0123456789'' ! d"
proof -
  assume "d < 10"
  then have "d \<in> {0, 1, 2, 3, 4, 5, 6, 7, 8, 9}" by auto
  then show ?thesis by (auto simp: char_of_def bit_0)
qed

lemma digit_char: "digit v = ''0123456789'' ! (unat v mod 10)"
  by (simp add: digit_def unat_mod digit_table)

lemma decimal_less: "n < 10 \<Longrightarrow> decimal n = [''0123456789'' ! n]"
  by (subst decimal.simps) simp

lemma decimal_ge:
  "10 \<le> n \<Longrightarrow> decimal n = decimal (n div 10) @ [''0123456789'' ! (n mod 10)]"
  by (subst decimal.simps) simp

lemma length_decimal_pos: "Suc 0 \<le> length (decimal n)"
  by (subst decimal.simps) simp

lemma length_decimal_le: "0 < k \<Longrightarrow> n < 10 ^ k \<Longrightarrow> length (decimal n) \<le> k"
proof (induction k arbitrary: n)
  case 0
  then show ?case by simp
next
  case (Suc k)
  show ?case
  proof (cases "n < 10")
    case True
    then show ?thesis by (simp add: decimal_less)
  next
    case False
    then have "0 < k" using Suc.prems by (cases k) auto
    moreover have "n div 10 < 10 ^ k" using Suc.prems by (simp add: less_mult_imp_div_less mult.commute)
    ultimately have "length (decimal (n div 10)) \<le> k" by (rule Suc.IH)
    then show ?thesis using False by (simp add: decimal_ge)
  qed
qed

lemma length_decimal_u32: "length (decimal (unat (v :: u32))) \<le> 10"
proof -
  have "unat v < 2 ^ 32" using unsigned_less [of v] by simp
  then have "unat v < 10 ^ 10" by simp
  then show ?thesis by (intro length_decimal_le) simp_all
qed

lemma fmt_digits_decimal:
  assumes "idx + length (decimal (unat v)) \<le> length dbuf"
  shows "\<exists>dbuf'. fmt_digits v dbuf idx = (dbuf', idx + length (decimal (unat v))) \<and>
           length dbuf' = length dbuf \<and>
           take (idx + length (decimal (unat v))) dbuf' = take idx dbuf @ rev (decimal (unat v))"
  using assms
proof (induction "unat v" arbitrary: v dbuf idx rule: less_induct)
  case less
  have idx: "idx < length dbuf"
    using less.prems length_decimal_pos [of "unat v"] by linarith
  let ?d = "dbuf[idx := digit v]"
  have tk: "take (Suc idx) ?d = take idx dbuf @ [digit v]"
    using idx by (simp add: take_Suc_conv_app_nth)
  show ?case
  proof (cases "unat v < 10")
    case True
    then have "unat (v div 10) = 0" by (simp add: unat_div)
    then have z: "v div 10 = 0" by (simp add: unat_eq_0)
    have "decimal (unat v) = [digit v]"
      using True by (simp add: decimal_less digit_char)
    moreover have "fmt_digits v dbuf idx = (?d, idx + 1)"
      using idx z by (subst fmt_digits.simps) simp
    ultimately show ?thesis using tk by simp
  next
    case False
    then have ge: "10 \<le> unat v" by simp
    have u: "unat (v div 10) = unat v div 10" by (simp add: unat_div)
    then have nz: "v div 10 \<noteq> 0" using ge by (auto simp: unat_eq_0 [symmetric] simp del: unat_eq_0)
    have dec: "decimal (unat v) = decimal (unat (v div 10)) @ [digit v]"
      using ge by (simp add: decimal_ge u digit_char)
    have step: "fmt_digits v dbuf idx = fmt_digits (v div 10) ?d (idx + 1)"
      using idx nz by (subst fmt_digits.simps) simp
    have "unat (v div 10) < unat v" using ge u by simp
    moreover have "idx + 1 + length (decimal (unat (v div 10))) \<le> length ?d"
      using less.prems dec by simp
    ultimately obtain dbuf' where
      r: "fmt_digits (v div 10) ?d (idx + 1) = (dbuf', idx + 1 + length (decimal (unat (v div 10))))"
      and l: "length dbuf' = length ?d"
      and t: "take (idx + 1 + length (decimal (unat (v div 10)))) dbuf'
                = take (idx + 1) ?d @ rev (decimal (unat (v div 10)))"
      using less.hyps [of "v div 10" "idx + 1" ?d] by blast
    have "fmt_digits v dbuf idx = (dbuf', idx + length (decimal (unat v)))"
      using step r dec by simp
    moreover have "length dbuf' = length dbuf" using l by simp
    moreover have "take (idx + length (decimal (unat v))) dbuf' = take idx dbuf @ rev (decimal (unat v))"
      using t tk dec by simp
    ultimately show ?thesis by blast
  qed
qed

lemma pending_padding:
  "padding \<noteq> 0 \<Longrightarrow> pending padding idx dbuf = CHR ''0'' # pending (padding - 1) idx dbuf"
proof -
  assume "padding \<noteq> 0"
  then have "unat padding = Suc (unat (padding - 1))"
    by (simp add: unat_minus_one unat_gt_0)
  then show ?thesis by (simp add: pending_def)
qed

lemma pending_digit:
  assumes "idx \<noteq> 0" and "idx \<le> length dbuf"
  shows "pending 0 idx dbuf = dbuf ! (idx - 1) # pending 0 (idx - 1) dbuf"
proof -
  obtain j where j: "idx = Suc j" using assms(1) by (cases idx) auto
  then have "take idx dbuf = take j dbuf @ [dbuf ! j]"
    using assms(2) by (simp add: take_Suc_conv_app_nth)
  then show ?thesis using j by (simp add: pending_def)
qed

lemma pending_empty: "pending 0 0 dbuf = []"
  by (simp add: pending_def)

lemma store_Some: "a < length m \<Longrightarrow> store m a c = Some (m[a := c])"
  by (simp add: store_def)

lemma take_drop_update:
  assumes "a < length m"
  shows "take (Suc a) (m[a := c]) = take a m @ [c]" and "drop (Suc a + l) (m[a := c]) = drop (Suc a + l) m"
  using assms by (simp_all add: take_Suc_conv_app_nth)

lemma written_Cons:
  assumes "blen \<noteq> 0" and "blen - 1 \<noteq> 0" and "pending padding idx dbuf = x # rest"
  shows "written blen padding idx dbuf = x # take (unat (blen - 1) - 1) rest"
proof -
  have "unat (blen - 1) = unat blen - 1"
    using assms(1) by (simp add: unat_minus_one)
  moreover have "unat (blen - 1) \<noteq> 0"
    using assms(2) by (simp add: unat_eq_0)
  ultimately have "unat blen - 1 = Suc (unat (blen - 1) - 1)"
    by linarith
  then show ?thesis
    by (simp only: written_def assms(3) take_Suc_Cons)
qed

lemma written_one: "written 1 padding idx dbuf = []"
  by (simp add: written_def)

lemma fmt_copy_spec:
  assumes "k = idx + unat padding" and "idx \<le> length dbuf"
    and "padding \<noteq> 0 \<longrightarrow> c = CHR ''0''" and "blen \<noteq> 0"
    and "buf + length (written blen padding idx dbuf) \<le> length m"
  shows "fmt_copy blen idx padding c dbuf buf len m =
           Some (buf + length (written blen padding idx dbuf),
                 len + of_nat (length (written blen padding idx dbuf)),
                 take buf m @ written blen padding idx dbuf
                   @ drop (buf + length (written blen padding idx dbuf)) m)"
  using assms
proof (induction k arbitrary: blen idx padding c buf len m)
  case 0
  then have "idx = 0" "padding = 0" by (simp_all add: unat_eq_0)
  then show ?case
    by (subst fmt_copy.simps) (simp add: pending_empty written_def)
next
  case (Suc k)
  show ?case
  proof (cases "blen - 1 = 0")
    case True
    then have "blen = 1" by simp
    then show ?thesis
      by (subst fmt_copy.simps) (simp add: written_one)
  next
    case False
    then have pos: "0 < blen - 1" by (simp add: word_greater_zero_iff)
    have nz: "idx \<noteq> 0 \<or> padding \<noteq> 0"
      using Suc.prems(1) by (auto simp: unat_eq_0)
    show ?thesis
    proof (cases "padding = 0")
      case False
      note pad = this
      let ?m = "m[buf := CHR ''0'']"
      have c: "c = CHR ''0''" using Suc.prems(3) pad by simp
      have out: "written blen padding idx dbuf
                   = CHR ''0'' # written (blen - 1) (padding - 1) idx dbuf"
        unfolding written_def [of "blen - 1"]
        using Suc.prems(4) \<open>blen - 1 \<noteq> 0\<close> pending_padding [OF pad] by (rule written_Cons)
      have lt: "buf < length m"
        using Suc.prems(5) by (simp add: out)
      have step: "fmt_copy blen idx padding c dbuf buf len m
                    = fmt_copy (blen - 1) idx (padding - 1) (CHR ''0'') dbuf (buf + 1) (len + 1) ?m"
        using pos pad c lt by (subst fmt_copy.simps) (simp add: store_Some Let_def)
      have "unat (padding - 1) = unat padding - 1" and "unat padding \<noteq> 0"
        using pad by (simp_all add: unat_minus_one unat_eq_0)
      then have k: "k = idx + unat (padding - 1)"
        using Suc.prems(1) by linarith
      have fits: "buf + 1 + length (written (blen - 1) (padding - 1) idx dbuf) \<le> length ?m"
        using Suc.prems(5) by (simp add: out)
      have "padding - 1 \<noteq> 0 \<longrightarrow> CHR ''0'' = CHR ''0''" by simp
      note ih = Suc.IH [where len = "len + 1", OF k Suc.prems(2) this \<open>blen - 1 \<noteq> 0\<close> fits]
      show ?thesis
        unfolding step out
        using ih take_drop_update [OF lt, where c = "CHR ''0''"] by (simp add: add.assoc)
    next
      case True
      note pad = this
      then have i: "idx \<noteq> 0" using nz by simp
      let ?c = "dbuf ! (idx - 1)"
      let ?m = "m[buf := ?c]"
      have p: "pending padding idx dbuf = ?c # pending 0 (idx - 1) dbuf"
        using pad pending_digit [OF i Suc.prems(2)] by simp
      have out: "written blen padding idx dbuf = ?c # written (blen - 1) 0 (idx - 1) dbuf"
        unfolding written_def [of "blen - 1"]
        using Suc.prems(4) \<open>blen - 1 \<noteq> 0\<close> p by (rule written_Cons)
      have lt: "buf < length m"
        using Suc.prems(5) by (simp add: out)
      have step: "fmt_copy blen idx padding c dbuf buf len m
                    = fmt_copy (blen - 1) (idx - 1) 0 ?c dbuf (buf + 1) (len + 1) ?m"
        using pos pad i lt by (subst fmt_copy.simps) (simp add: store_Some Let_def)
      have k: "k = (idx - 1) + unat (0 :: u8)"
        using Suc.prems(1) pad i by simp
      have le: "idx - 1 \<le> length dbuf" using Suc.prems(2) by simp
      have fits: "buf + 1 + length (written (blen - 1) 0 (idx - 1) dbuf) \<le> length ?m"
        using Suc.prems(5) by (simp add: out)
      have "(0 :: u8) \<noteq> 0 \<longrightarrow> ?c = CHR ''0''" by simp
      note ih = Suc.IH [where len = "len + 1", OF k le this \<open>blen - 1 \<noteq> 0\<close> fits]
      show ?thesis
        unfolding step out
        using ih take_drop_update [OF lt, where c = ?c] by (simp add: add.assoc)
    qed
  qed
qed

lemma fmt_digits_u32:
  "\<exists>dbuf. fmt_digits v (replicate 10 (CHR 0x00)) 0 = (dbuf, length (decimal (unat v))) \<and>
          length dbuf = 10 \<and> take (length (decimal (unat v))) dbuf = rev (decimal (unat v))"
  using fmt_digits_decimal [of 0 v "replicate 10 (CHR 0x00)"] length_decimal_u32 [of v]
  by simp

lemma unat_padding:
  fixes width :: u8
  shows "unat (if idx < unat width then of_nat (unat width - idx) else 0 :: u8) = unat width - idx"
proof (cases "idx < unat width")
  case True
  have "unat width < 2 ^ 8" using unsigned_less [of width] by simp
  then have small: "unat width - idx < 2 ^ LENGTH(8)" by simp
  have "unat (of_nat (unat width - idx) :: u8) = (unat width - idx) mod 2 ^ LENGTH(8)"
    by (rule unat_of_nat)
  also have "\<dots> = unat width - idx"
    using small by (rule mod_less)
  finally show ?thesis using True by (simp only: if_True)
next
  case False
  then show ?thesis by simp
qed

lemma written_fmt_digits:
  fixes width :: u8
  assumes "take (length (decimal (unat v))) dbuf = rev (decimal (unat v))"
    and "idx = length (decimal (unat v))"
  shows "written blen (if idx < unat width then of_nat (unat width - idx) else 0) idx dbuf
           = take (unat blen - 1) (padded (unat width) (unat v))"
  by (simp only: written_def pending_def unat_padding assms padded_def rev_rev_ident)

lemma update_in_middle:
  "length front = b \<Longrightarrow> (front @ out @ d # back)[b + length out := c] = front @ out @ c # back"
  by (simp add: list_update_append)

lemma update_middle:
  assumes "b + length out < length m"
  shows "(take b m @ out @ drop (b + length out) m)[b + length out := c]
           = take b m @ out @ c # drop (b + length out + 1) m"
proof -
  have b: "length (take b m) = b" using assms by simp
  have "drop (b + length out) m = m ! (b + length out) # drop (b + length out + 1) m"
    using assms by (simp add: Cons_nth_drop_Suc)
  then show ?thesis
    using update_in_middle [OF b] by (simp only:)
qed

lemma fmt_unsigned_spec:
  assumes "blen \<noteq> 0"
    and "b + length (take (unat blen - 1) (padded (unat width) (unat v))) < length m"
  shows "fmt_unsigned v (Some b) blen width m =
           Some (of_nat (length (take (unat blen - 1) (padded (unat width) (unat v)))),
                 take b m @ take (unat blen - 1) (padded (unat width) (unat v))
                   @ CHR 0x00 # drop (b + length (take (unat blen - 1) (padded (unat width) (unat v))) + 1) m)"
proof -
  obtain dbuf where d: "fmt_digits v (replicate 10 (CHR 0x00)) 0 = (dbuf, length (decimal (unat v)))"
    and l: "length dbuf = 10"
    and t: "take (length (decimal (unat v))) dbuf = rev (decimal (unat v))"
    using fmt_digits_u32 [of v] by blast
  let ?idx = "length (decimal (unat v))"
  let ?padding = "if ?idx < unat width then of_nat (unat width - ?idx) else 0 :: u8"
  let ?out = "take (unat blen - 1) (padded (unat width) (unat v))"
  have w: "written blen ?padding ?idx dbuf = ?out"
    using t by (rule written_fmt_digits) simp
  have idx: "?idx \<le> length dbuf"
    using l length_decimal_u32 [of v] by simp
  have fits: "b + length (written blen ?padding ?idx dbuf) \<le> length m"
    using assms(2) unfolding w by simp
  have copy: "fmt_copy blen ?idx ?padding (CHR ''0'') dbuf b 0 m =
          Some (b + length ?out, 0 + of_nat (length ?out), take b m @ ?out @ drop (b + length ?out) m)"
    using fmt_copy_spec [OF refl idx _ assms(1) fits, of "CHR ''0''" 0] unfolding w by simp
  have "b + length ?out < length (take b m @ ?out @ drop (b + length ?out) m)"
    using assms(2) by simp
  then have st: "store (take b m @ ?out @ drop (b + length ?out) m) (b + length ?out) (CHR 0x00)
          = Some (take b m @ ?out @ CHR 0x00 # drop (b + length ?out + 1) m)"
    using update_middle [OF assms(2)] by (simp only: store_def if_True)
  show ?thesis
    unfolding fmt_unsigned_def
    using assms(1) by (simp only: option.case d prod.case Let_def copy st if_False add_0)
qed

lemma digit_table_no_nul: "d < 10 \<Longrightarrow> ''0123456789'' ! d \<noteq> CHR 0x00"
proof -
  assume "d < 10"
  then have "d \<in> {0, 1, 2, 3, 4, 5, 6, 7, 8, 9}" by auto
  then show ?thesis by auto
qed

lemma decimal_no_nul: "CHR 0x00 \<notin> set (decimal n)"
proof (induction n rule: decimal.induct)
  case (1 n)
  show ?case
  proof (cases "n < 10")
    case True
    then show ?thesis
      using digit_table_no_nul [of n] by (simp add: decimal_less)
  next
    case False
    then have "CHR 0x00 \<notin> set (decimal (n div 10))" by (rule "1.IH")
    moreover have "''0123456789'' ! (n mod 10) \<noteq> CHR 0x00"
      by (rule digit_table_no_nul) simp
    ultimately show ?thesis
      using False by (simp add: decimal_ge)
  qed
qed

lemma padded_no_nul: "CHR 0x00 \<notin> set (take k (padded width n))"
proof -
  have "CHR 0x00 \<notin> set (padded width n)"
    using decimal_no_nul [of n] by (simp add: padded_def)
  then show ?thesis
    using set_take_subset [of k "padded width n"] by blast
qed

lemma c_str_middle:
  assumes "length front = b" and "CHR 0x00 \<notin> set out"
  shows "c_str (front @ out @ CHR 0x00 # rest) b = out"
proof -
  have "takeWhile (\<lambda>c. c \<noteq> CHR 0x00) (out @ CHR 0x00 # rest) = out"
    using assms(2) by (induction out) auto
  then show ?thesis
    using assms(1) by (simp add: c_str_def)
qed

lemma frame_middle:
  assumes "length old = length out"
  shows "length (front @ out @ c # rest) = length (front @ old @ d # rest)"
    and "(front @ out @ c # rest) ! (length front + length out) = c"
    and "i < length front \<Longrightarrow> (front @ out @ c # rest) ! i = (front @ old @ d # rest) ! i"
    and "length front + length out < i \<Longrightarrow>
           (front @ out @ c # rest) ! i = (front @ old @ d # rest) ! i"
proof -
  show "length (front @ out @ c # rest) = length (front @ old @ d # rest)"
    using assms by simp
  show "(front @ out @ c # rest) ! (length front + length out) = c"
    by (simp add: nth_append)
  show "(front @ out @ c # rest) ! i = (front @ old @ d # rest) ! i" if "i < length front"
    using that by (simp add: nth_append)
  show "(front @ out @ c # rest) ! i = (front @ old @ d # rest) ! i"
    if "length front + length out < i"
  proof -
    define j where "j = i - (length front + length out) - 1"
    have j: "i = length front + (length out + Suc j)"
      using that by (simp add: j_def)
    have "(front @ out @ c # rest) ! i = rest ! j"
      unfolding j by (simp only: nth_append_length_plus nth_Cons_Suc)
    moreover have "(front @ old @ d # rest) ! i = rest ! j"
      unfolding j assms [symmetric] by (simp only: nth_append_length_plus nth_Cons_Suc)
    ultimately show ?thesis by simp
  qed
qed

lemma split_middle:
  assumes "b + l < length m"
  shows "m = take b m @ take l (drop b m) @ m ! (b + l) # drop (b + l + 1) m"
    and "length (take b m) = b" and "length (take l (drop b m)) = l"
proof -
  have "drop b m = take l (drop b m) @ drop l (drop b m)"
    by (rule append_take_drop_id [symmetric])
  also have "drop l (drop b m) = m ! (b + l) # drop (b + l + 1) m"
    using assms by (simp add: Cons_nth_drop_Suc add.commute)
  finally have "drop b m = take l (drop b m) @ m ! (b + l) # drop (b + l + 1) m" .
  then have "take b m @ drop b m = take b m @ take l (drop b m) @ m ! (b + l) # drop (b + l + 1) m"
    by simp
  then show "m = take b m @ take l (drop b m) @ m ! (b + l) # drop (b + l + 1) m"
    by simp
  show "length (take b m) = b" "length (take l (drop b m)) = l"
    using assms by simp_all
qed

text \<open>
  What \<open>fmt_unsigned\<close> does with a buffer of \<open>blen\<close> characters at \<open>b\<close>: the text it leaves
  there, the count it returns, and the cells it leaves alone.
\<close>

lemma fmt_unsigned_result:
  assumes "blen \<noteq> 0" and "b + unat blen \<le> length m"
  shows "\<exists>len m'. fmt_unsigned v (Some b) blen width m = Some (len, m') \<and>
           unat len = length (take (unat blen - 1) (padded (unat width) (unat v))) \<and>
           c_str m' b = take (unat blen - 1) (padded (unat width) (unat v)) \<and>
           length m' = length m \<and> m' ! (b + unat len) = CHR 0x00 \<and>
           (\<forall>i. i < b \<or> b + unat len < i \<longrightarrow> m' ! i = m ! i)"
proof -
  let ?out = "take (unat blen - 1) (padded (unat width) (unat v))"
  let ?m = "take b m @ ?out @ CHR 0x00 # drop (b + length ?out + 1) m"
  have pos: "0 < unat blen"
    using assms(1) by (simp add: unat_gt_0)
  have "length ?out \<le> unat blen - 1"
    by simp
  then have short: "length ?out < unat blen"
    using pos by linarith
  then have fits: "b + length ?out < length m"
    using assms(2) by linarith
  have "unat blen < 2 ^ LENGTH(16)"
    by (rule unsigned_less)
  then have "length ?out < 2 ^ LENGTH(16)"
    using short by linarith
  then have len: "unat (of_nat (length ?out) :: u16) = length ?out"
    by (simp only: unat_of_nat mod_less)
  have run: "fmt_unsigned v (Some b) blen width m = Some (of_nat (length ?out), ?m)"
    using assms(1) fits by (rule fmt_unsigned_spec)
  let ?front = "take b m"
  let ?old = "take (length ?out) (drop b m)"
  let ?rest = "drop (b + length ?out + 1) m"
  note sp = split_middle [OF fits]
  have whole: "?front @ ?old @ m ! (b + length ?out) # ?rest = m"
    using sp(1) by (rule sym)
  have same: "length ?old = length ?out"
    using sp(3) by simp
  have l: "length ?m = length m"
    using frame_middle(1) [OF same, where front = ?front and rest = ?rest
        and d = "m ! (b + length ?out)" and c = "CHR 0x00"]
    by (simp only: whole)
  have z: "?m ! (b + length ?out) = CHR 0x00"
    using frame_middle(2) [where front = ?front and rest = ?rest and out = ?out
        and c = "CHR 0x00"]
    by (simp only: sp(2))
  have lo: "?m ! i = m ! i" if "i < b" for i
    using frame_middle(3) [OF same, where front = ?front and rest = ?rest
        and d = "m ! (b + length ?out)" and c = "CHR 0x00" and i = i] that
    by (simp only: whole sp(2))
  have hi: "?m ! i = m ! i" if "b + length ?out < i" for i
    using frame_middle(4) [OF same, where front = ?front and rest = ?rest
        and d = "m ! (b + length ?out)" and c = "CHR 0x00" and i = i] that
    by (simp only: whole sp(2))
  have str: "c_str ?m b = ?out"
    using sp(2) padded_no_nul by (rule c_str_middle)
  have "unat (of_nat (length ?out) :: u16) = length ?out \<and>
        c_str ?m b = ?out \<and> length ?m = length m \<and>
        ?m ! (b + unat (of_nat (length ?out) :: u16)) = CHR 0x00 \<and>
        (\<forall>i. i < b \<or> b + unat (of_nat (length ?out) :: u16) < i \<longrightarrow> ?m ! i = m ! i)"
    unfolding len using str l z lo hi by blast
  with run show ?thesis
    by blast
qed

lemma decimal_samples:
  "decimal 1234 = ''1234''" "decimal 7 = ''7''" "decimal 12345 = ''12345''"
  by (simp_all add: decimal.simps)

lemma replicate_two: "replicate 2 c = [c, c]"
  by (simp add: numeral_2_eq_2)

lemma padded_samples:
  "padded 0 1234 = ''1234''" "padded 3 7 = ''007''" "padded 0 12345 = ''12345''"
  by (simp_all add: padded_def decimal_samples replicate_two)

text \<open>
  Claim C6. For every value, width and buffer: with a null buffer pointer or a capacity of
  0, \<open>fmt_unsigned\<close> writes nothing and returns 0. Otherwise, on a buffer that has the
  \<open>blen\<close> characters the caller announces, it faults nowhere, returns a count of at most
  \<open>blen - 1\<close> characters, puts the \<open>'\0'\<close> right after them at an index below \<open>blen\<close>, and
  changes no cell before the buffer or after the \<open>'\0'\<close>. The text it leaves is the decimal
  numeral padded with leading zeros to \<open>width\<close>, cut to \<open>blen - 1\<close> characters; when the
  capacity suffices it is the whole padded numeral. With a buffer of 6 characters, 1234
  gives "1234" and the count 4, and 7 with width 3 gives "007".
\<close>

theorem fmt_unsigned_contract:
  "fmt_unsigned v None blen width m = Some (0, m) \<and>
   fmt_unsigned v buf 0 width m = Some (0, m) \<and>
   (blen \<noteq> 0 \<and> b + unat blen \<le> length m \<longrightarrow>
      (\<exists>len m'. fmt_unsigned v (Some b) blen width m = Some (len, m') \<and>
         unat len \<le> unat blen - 1 \<and> unat len < unat blen \<and>
         m' ! (b + unat len) = CHR 0x00 \<and> length m' = length m \<and>
         (\<forall>i. i < b \<or> b + unat len < i \<longrightarrow> m' ! i = m ! i) \<and>
         length (c_str m' b) = unat len \<and>
         c_str m' b = take (unat blen - 1) (padded (unat width) (unat v)) \<and>
         (unat width < unat blen \<and> length (decimal (unat v)) < unat blen \<longrightarrow>
            c_str m' b = replicate (unat width - length (decimal (unat v))) (CHR ''0'')
                           @ decimal (unat v)))) \<and>
   (6 \<le> length m \<longrightarrow>
      (\<exists>m'. fmt_unsigned 1234 (Some 0) 6 0 m = Some (4, m') \<and> c_str m' 0 = ''1234'') \<and>
      (\<exists>m'. fmt_unsigned 7 (Some 0) 6 3 m = Some (3, m') \<and> c_str m' 0 = ''007''))"
proof -
  have null: "fmt_unsigned v None blen width m = Some (0, m)"
    by (simp add: fmt_unsigned_def)
  have zero: "fmt_unsigned v buf 0 width m = Some (0, m)"
    by (cases buf) (simp_all add: fmt_unsigned_def)
  have general: "\<exists>len m'. fmt_unsigned v (Some b) blen width m = Some (len, m') \<and>
         unat len \<le> unat blen - 1 \<and> unat len < unat blen \<and>
         m' ! (b + unat len) = CHR 0x00 \<and> length m' = length m \<and>
         (\<forall>i. i < b \<or> b + unat len < i \<longrightarrow> m' ! i = m ! i) \<and>
         length (c_str m' b) = unat len \<and>
         c_str m' b = take (unat blen - 1) (padded (unat width) (unat v)) \<and>
         (unat width < unat blen \<and> length (decimal (unat v)) < unat blen \<longrightarrow>
            c_str m' b = replicate (unat width - length (decimal (unat v))) (CHR ''0'')
                           @ decimal (unat v))"
    if "blen \<noteq> 0" and "b + unat blen \<le> length m"
  proof -
    note pre = that
    let ?out = "take (unat blen - 1) (padded (unat width) (unat v))"
    obtain len m' where r: "fmt_unsigned v (Some b) blen width m = Some (len, m')"
      and n: "unat len = length ?out" and s: "c_str m' b = ?out"
      and l: "length m' = length m" and z: "m' ! (b + unat len) = CHR 0x00"
      and f: "\<forall>i. i < b \<or> b + unat len < i \<longrightarrow> m' ! i = m ! i"
      using fmt_unsigned_result [OF pre, of v width] by blast
    have pos: "0 < unat blen"
      using pre(1) by (simp add: unat_gt_0)
    have "length ?out \<le> unat blen - 1" by simp
    then have le: "unat len \<le> unat blen - 1" and lt: "unat len < unat blen"
      using n pos by linarith+
    have whole: "?out = replicate (unat width - length (decimal (unat v))) (CHR ''0'')
                           @ decimal (unat v)"
      if "unat width < unat blen" "length (decimal (unat v)) < unat blen"
    proof -
      have "length (padded (unat width) (unat v)) \<le> unat blen - 1"
        using that by (simp add: padded_def)
      then show ?thesis by (simp add: padded_def)
    qed
    have cl: "length (c_str m' b) = unat len"
      using s n by simp
    have fit: "unat width < unat blen \<and> length (decimal (unat v)) < unat blen \<longrightarrow>
            c_str m' b = replicate (unat width - length (decimal (unat v))) (CHR ''0'')
                           @ decimal (unat v)"
      using whole s by simp
    from r le lt z l f cl s fit show ?thesis
      by (intro exI [of _ len] exI [of _ m'] conjI)
  qed
  have ex1: "\<exists>m'. fmt_unsigned 1234 (Some 0) 6 0 m = Some (4, m') \<and> c_str m' 0 = ''1234''"
    if "6 \<le> length m"
  proof -
    have "0 + unat (6 :: u16) \<le> length m" using that by simp
    then obtain len m' where r: "fmt_unsigned 1234 (Some 0) 6 0 m = Some (len, m')"
      and n: "unat len = length (take (unat (6 :: u16) - 1) (padded (unat (0 :: u8)) (unat (1234 :: u32))))"
      and s: "c_str m' 0 = take (unat (6 :: u16) - 1) (padded (unat (0 :: u8)) (unat (1234 :: u32)))"
      using fmt_unsigned_result [of 6 0 m 1234 0] by auto
    have "unat len = unat (4 :: u16)"
      using n by (simp add: padded_samples)
    then have "len = 4" by (rule unsigned_word_eqI)
    moreover have "c_str m' 0 = ''1234''"
      using s by (simp add: padded_samples)
    ultimately show ?thesis using r by blast
  qed
  have ex2: "\<exists>m'. fmt_unsigned 7 (Some 0) 6 3 m = Some (3, m') \<and> c_str m' 0 = ''007''"
    if "6 \<le> length m"
  proof -
    have "0 + unat (6 :: u16) \<le> length m" using that by simp
    then obtain len m' where r: "fmt_unsigned 7 (Some 0) 6 3 m = Some (len, m')"
      and n: "unat len = length (take (unat (6 :: u16) - 1) (padded (unat (3 :: u8)) (unat (7 :: u32))))"
      and s: "c_str m' 0 = take (unat (6 :: u16) - 1) (padded (unat (3 :: u8)) (unat (7 :: u32)))"
      using fmt_unsigned_result [of 6 0 m 7 3] by auto
    have "unat len = unat (3 :: u16)"
      using n by (simp add: padded_samples)
    then have "len = 3" by (rule unsigned_word_eqI)
    moreover have "c_str m' 0 = ''007''"
      using s by (simp add: padded_samples)
    ultimately show ?thesis using r by blast
  qed
  show ?thesis
    using null zero general ex1 ex2 by blast
qed

theorem fmt_unsigned_contract_witness:
  "(6 :: u16) \<noteq> 0 \<and> 0 + unat (6 :: u16) \<le> length (replicate 6 (CHR ''x'')) \<and>
   fmt_unsigned 7 (Some 0) 6 3 (replicate 6 (CHR ''x''))
     = Some (3, [CHR ''0'', CHR ''0'', CHR ''7'', CHR 0x00, CHR ''x'', CHR ''x'']) \<and>
   c_str [CHR ''0'', CHR ''0'', CHR ''7'', CHR 0x00, CHR ''x'', CHR ''x''] 0 = ''007'' \<and>
   fmt_unsigned 7 None 6 3 (replicate 6 (CHR ''x'')) = Some (0, replicate 6 (CHR ''x''))"
proof -
  have ev: "fmt_unsigned 7 (Some 0) 6 3 (replicate 6 (CHR ''x''))
     = Some (3, [CHR ''0'', CHR ''0'', CHR ''7'', CHR 0x00, CHR ''x'', CHR ''x''])"
    by code_simp
  have room: "(6 :: u16) \<noteq> 0 \<and> 0 + unat (6 :: u16) \<le> length (replicate 6 (CHR ''x''))"
    by simp
  note c = fmt_unsigned_contract [of 7 6 3 "replicate 6 (CHR ''x'')" "Some 0" 0]
  from c have "fmt_unsigned 7 None 6 3 (replicate 6 (CHR ''x'')) = Some (0, replicate 6 (CHR ''x''))"
    by (rule conjunct1)
  moreover from c
  have "\<exists>m'. fmt_unsigned 7 (Some 0) 6 3 (replicate 6 (CHR ''x'')) = Some (3, m') \<and>
          c_str m' 0 = ''007''"
    by simp
  then have "c_str [CHR ''0'', CHR ''0'', CHR ''7'', CHR 0x00, CHR ''x'', CHR ''x''] 0 = ''007''"
    unfolding ev by simp
  ultimately show ?thesis
    using ev room by simp
qed

text \<open>
  Claim C5, as amended. For every value whose decimal digit count exceeds \<open>blen - 1\<close>,
  \<open>fmt_unsigned\<close> (on a buffer that has the \<open>blen\<close> characters announced) writes the first
  \<open>blen - 1\<close> characters of the padded numeral into the front of the buffer and the \<open>'\0'\<close>
  after them: the result has \<open>blen - 1\<close> characters and is null-terminated. When no padding
  is asked for (\<open>width\<close> at most the digit count, as with the default 0) these are the most
  significant digits of the value: the result keeps the leading digits and loses the
  trailing ones.
\<close>

theorem fmt_unsigned_truncation:
  assumes "blen \<noteq> 0" and "b + unat blen \<le> length m"
    and "unat blen - 1 < length (decimal (unat v))"
  shows "\<exists>m'. fmt_unsigned v (Some b) blen width m = Some (blen - 1, m') \<and>
           m' ! (b + unat (blen - 1)) = CHR 0x00 \<and>
           length (c_str m' b) = unat blen - 1 \<and>
           c_str m' b = take (unat blen - 1) (padded (unat width) (unat v)) \<and>
           (unat width \<le> length (decimal (unat v)) \<longrightarrow>
              c_str m' b = take (unat blen - 1) (decimal (unat v)))"
proof -
  let ?out = "take (unat blen - 1) (padded (unat width) (unat v))"
  obtain len m' where r: "fmt_unsigned v (Some b) blen width m = Some (len, m')"
    and n: "unat len = length ?out" and s: "c_str m' b = ?out"
    and z: "m' ! (b + unat len) = CHR 0x00"
    using fmt_unsigned_result [OF assms(1,2), of v width] by blast
  have "unat blen - 1 \<le> length (padded (unat width) (unat v))"
    using assms(3) by (simp add: padded_def)
  then have full: "length ?out = unat blen - 1"
    by simp
  have "unat len = unat (blen - 1)"
    using n full assms(1) by (simp add: unat_minus_one)
  then have len: "len = blen - 1"
    by (rule unsigned_word_eqI)
  have cl: "length (c_str m' b) = unat blen - 1"
    using s full by simp
  have plain: "unat width \<le> length (decimal (unat v)) \<longrightarrow>
              c_str m' b = take (unat blen - 1) (decimal (unat v))"
    using s by (simp add: padded_def)
  from r z cl s plain show ?thesis
    unfolding len by (intro exI [of _ m'] conjI)
qed

theorem fmt_unsigned_truncation_witness:
  "(3 :: u16) \<noteq> 0 \<and> 0 + unat (3 :: u16) \<le> length (replicate 3 (CHR ''x'')) \<and>
   unat (3 :: u16) - 1 < length (decimal (unat (12345 :: u32))) \<and>
   fmt_unsigned 12345 (Some 0) 3 0 (replicate 3 (CHR ''x''))
     = Some (2, [CHR ''1'', CHR ''2'', CHR 0x00]) \<and>
   c_str [CHR ''1'', CHR ''2'', CHR 0x00] 0 = take 2 (decimal 12345) \<and>
   take 2 (decimal 12345) = ''12''"
proof -
  have a: "(3 :: u16) \<noteq> 0" and b: "0 + unat (3 :: u16) \<le> length (replicate 3 (CHR ''x''))"
    and c: "unat (3 :: u16) - 1 < length (decimal (unat (12345 :: u32)))"
    by (simp_all add: decimal_samples)
  have ev: "fmt_unsigned 12345 (Some 0) 3 0 (replicate 3 (CHR ''x''))
     = Some (2, [CHR ''1'', CHR ''2'', CHR 0x00])"
    by code_simp
  have "\<exists>m'. fmt_unsigned 12345 (Some 0) 3 0 (replicate 3 (CHR ''x'')) = Some (3 - 1, m') \<and>
          c_str m' 0 = take (unat (3 :: u16) - 1) (decimal (unat (12345 :: u32)))"
    using fmt_unsigned_truncation [OF a b c, of 0] by (auto simp: decimal_samples)
  then have "c_str [CHR ''1'', CHR ''2'', CHR 0x00] 0 = take 2 (decimal 12345)"
    unfolding ev by simp
  moreover have "take 2 (decimal 12345) = ''12''"
    by (simp add: decimal_samples)
  ultimately show ?thesis
    using a b c ev by simp
qed

text \<open>
  The claim as it was stated fails: 12345 has 5 digits, more than the 2 characters a
  buffer of 3 holds; the result is "12", the two leading digits, not the two trailing
  digits "45".
\<close>

theorem fmt_unsigned_truncation_counterexample:
  "unat (3 :: u16) - 1 < length (decimal 12345) \<and>
   fmt_unsigned 12345 (Some 0) 3 0 (replicate 3 (CHR ''x''))
     = Some (2, [CHR ''1'', CHR ''2'', CHR 0x00]) \<and>
   c_str [CHR ''1'', CHR ''2'', CHR 0x00] 0 = ''12'' \<and>
   take 2 (decimal 12345) = ''12'' \<and>
   drop (length (decimal 12345) - 2) (decimal 12345) = ''45'' \<and>
   c_str [CHR ''1'', CHR ''2'', CHR 0x00] 0 \<noteq> drop (length (decimal 12345) - 2) (decimal 12345)"
proof -
  have "fmt_unsigned 12345 (Some 0) 3 0 (replicate 3 (CHR ''x''))
     = Some (2, [CHR ''1'', CHR ''2'', CHR 0x00])"
    by code_simp
  then show ?thesis
    by (simp add: decimal_samples c_str_def)
qed

section \<open>Properties of the floating-point formatter\<close>

text \<open>With room for the \<open>'\0'\<close> alone, \<open>fmt_unsigned\<close> writes the \<open>'\0'\<close> and returns 0.\<close>

lemma fmt_unsigned_no_room:
  assumes "b < length m"
  shows "fmt_unsigned v (Some b) 1 width m = Some (0, m[b := CHR 0x00])"
proof -
  have "fmt_unsigned v (Some b) 1 width m
          = Some (of_nat (length (take (unat (1 :: u16) - 1) (padded (unat width) (unat v)))),
                  take b m @ take (unat (1 :: u16) - 1) (padded (unat width) (unat v))
                    @ CHR 0x00 # drop (b + length (take (unat (1 :: u16) - 1)
                        (padded (unat width) (unat v))) + 1) m)"
    using assms by (intro fmt_unsigned_spec) simp_all
  also have "\<dots> = Some (0, take b m @ CHR 0x00 # drop (Suc b) m)"
    by simp
  also have "take b m @ CHR 0x00 # drop (Suc b) m = m[b := CHR 0x00]"
    using assms by (rule upd_conv_take_nth_drop [symmetric])
  finally show ?thesis .
qed

lemma c_str_point:
  assumes "b + 2 \<le> length m"
  shows "c_str (m[b := CHR ''.'', b + 1 := CHR 0x00]) b = ''.''"
proof -
  let ?m = "m[b := CHR ''.'', b + 1 := CHR 0x00]"
  have "drop b ?m = ?m ! b # drop (Suc b) ?m"
    using assms by (intro Cons_nth_drop_Suc [symmetric]) simp
  also have "drop (Suc b) ?m = ?m ! Suc b # drop (Suc (Suc b)) ?m"
    using assms by (intro Cons_nth_drop_Suc [symmetric]) simp
  finally have "drop b ?m = CHR ''.'' # CHR 0x00 # drop (Suc (Suc b)) ?m"
    using assms by simp
  then show ?thesis
    by (simp add: c_str_def)
qed

text \<open>
  Claim C10. For every value that is not negative and every precision greater than 0,
  \<open>fmt_double\<close> with a capacity of exactly 2 (on a buffer that has these 2 characters)
  leaves the string "." in the buffer: the decimal point is written although no digit of
  the integral portion fits, and the \<open>'\0'\<close> is written at index 1, inside the capacity.
  This holds whatever the floating-point arithmetic is.
\<close>

theorem fmt_double_capacity_two:
  assumes "\<not> d_lt0 F v" and "0 < prec" and "b + 2 \<le> length m"
  shows "fmt_double F v prec (Some b) 2 m = Some (m[b := CHR ''.'', b + 1 := CHR 0x00]) \<and>
         c_str (m[b := CHR ''.'', b + 1 := CHR 0x00]) b = ''.'' \<and>
         (m[b := CHR ''.'', b + 1 := CHR 0x00]) ! (b + 1) = CHR 0x00"
proof -
  define p :: u8 where "p = (if 6 < prec then 6 else prec)"
  have p: "0 < p"
    using assms(2) by (simp add: p_def)
  obtain roundingFactor mult where f: "fmt_factors F p 0 (d_half F) 1 = (roundingFactor, mult)"
    by (cases "fmt_factors F p 0 (d_half F) 1") 
  have b: "b < length m" "b < length (m[b := CHR 0x00])" "Suc b < length m"
    using assms(3) by simp_all
  have sign: "fmt_double_sign F v b 1 m = Some (v, b, 1, m)"
    using assms(1) by (simp add: fmt_double_sign_def)
  have integral: "fmt_double_integral F v roundingFactor b 1 m
                    = Some (d_add F v roundingFactor, b, 1, m[b := CHR 0x00])"
    using b(1) by (simp add: fmt_double_integral_def fmt_unsigned_no_room)
  have fraction: "fmt_double_fraction F (d_add F v roundingFactor) mult p b 1 (m[b := CHR 0x00])
                    = Some (b + 1, m[b := CHR ''.''])"
    using p b(2) by (simp add: fmt_double_fraction_def store_def)
  have "fmt_double F v prec (Some b) 2 m = store (m[b := CHR ''.'']) (b + 1) (CHR 0x00)"
    unfolding fmt_double_def p_def [symmetric]
    by (simp add: sign f integral fraction)
  also have "\<dots> = Some (m[b := CHR ''.'', b + 1 := CHR 0x00])"
    using b(3) by (simp add: store_def)
  finally have "fmt_double F v prec (Some b) 2 m = Some (m[b := CHR ''.'', b + 1 := CHR 0x00])" .
  moreover have "(m[b := CHR ''.'', b + 1 := CHR 0x00]) ! (b + 1) = CHR 0x00"
    using b(3) by simp
  ultimately show ?thesis
    using c_str_point [OF assms(3)] by simp
qed

theorem fmt_double_capacity_two_witness:
  "\<not> d_lt0 exact_fpu (314159 / 100000) \<and> (0 :: u8) < 2 \<and>
   0 + 2 \<le> length [CHR ''x'', CHR ''y''] \<and>
   fmt_double exact_fpu (314159 / 100000) 2 (Some 0) 2 [CHR ''x'', CHR ''y'']
     = Some [CHR ''.'', CHR 0x00] \<and>
   c_str [CHR ''.'', CHR 0x00] 0 = ''.''"
proof -
  have a: "\<not> d_lt0 exact_fpu (314159 / 100000)"
    by (simp add: exact_fpu_def)
  have p: "(0 :: u8) < 2"
    by simp
  have r: "0 + 2 \<le> length [CHR ''x'', CHR ''y'']"
    by simp
  from fmt_double_capacity_two [OF a p r] a p
  show ?thesis by simp
qed

section \<open>Properties of the floating-point formatter in binary arithmetic\<close>

declare log2floor.simps [simp del]

text \<open>
  One tenth has the significands \<open>0xCCCCCD\<close> (24 bits) and \<open>0x1999999999999A\<close> (53 bits).
\<close>

lemma round_ratio_tenth:
  "round_ratio 24 1 10 = (13421773, - 27)" "round_ratio 53 1 10 = (7205759403792794, - 56)"
  by code_simp+

text \<open>
  The literals and the intermediate values at the tie, as significand and exponent; they
  are the values of IEEE arithmetic in the single and the double format.
\<close>

lemma binary_values:
  "round_ratio 24 314159 100000 = (13176784, - 22)"
  "round_ratio 53 314159 100000 = (7074231776675438, - 51)"
  "round_ratio 24 9999 1000 = (10484711, - 20)"
  "round_ratio 53 9999 1000 = (5628936584259699, - 49)"
  "rounding_offset (binary_fpu 24) 1 = (13421773, - 28)"
  "rounding_offset (binary_fpu 53) 1 = (7205759403792794, - 57)"
  "rounded (binary_fpu 24) (round_ratio 24 275 100) 1 = (11744051, - 22)"
  "rounded (binary_fpu 53) (round_ratio 53 275 100) 1 = (6305039478318694, - 51)"
  by code_simp+

text \<open>The sum 2.75 + 0.05 is rounded to a number below 2.8.\<close>

lemma binary_tie_below:
  "11744051 * 10 < (28 :: int) * 2 ^ 22" "6305039478318694 * 10 < (28 :: int) * 2 ^ 51"
  by simp_all

lemma log2floor_nonneg: "0 \<le> log2floor n"
  by (induction n rule: log2floor.induct) (subst log2floor.simps, simp)

lemma log2floor_bounds:
  "1 \<le> n \<Longrightarrow> 2 ^ nat (log2floor n) \<le> n \<and> n < 2 * 2 ^ nat (log2floor n)"
proof (induction n rule: log2floor.induct)
  case (1 n)
  show ?case
  proof (cases "n < 2")
    case True
    then show ?thesis using "1.prems" by (subst (1 2) log2floor.simps) simp
  next
    case False
    then have ih: "2 ^ nat (log2floor (n div 2)) \<le> n div 2"
      "n div 2 < 2 * 2 ^ nat (log2floor (n div 2))"
      using "1.IH" by simp_all
    have s: "nat (log2floor n) = Suc (nat (log2floor (n div 2)))"
      using False log2floor_nonneg [of "n div 2"]
      by (subst log2floor.simps) (simp add: nat_add_distrib)
    show ?thesis
      unfolding s using ih by simp linarith
  qed
qed

lemma nearest_even_nearest:
  assumes "0 < d"
  shows "\<bar>2 * (nearest_even n d * d - n)\<bar> \<le> d"
proof -
  have n: "n = n div d * d + n mod d" by simp
  have r: "0 \<le> n mod d" "n mod d < d" using assms by simp_all
  have up: "(n div d + 1) * d - n = d - n mod d"
    using n by (simp add: algebra_simps)
  have down: "n div d * d - n = - (n mod d)"
    using n by (simp add: algebra_simps)
  show ?thesis
    unfolding nearest_even_def Let_def
    using r up down by (auto simp: abs_if split: if_splits)
qed

lemma scaled_ratio:
  assumes "0 < d"
  shows "real_of_int (n * 2 ^ nat (- z)) / real_of_int (d * 2 ^ nat z)
           = real_of_int n / real_of_int d * 2 powi (- z)"
proof (cases "0 \<le> z")
  case True
  then have "(2 :: real) powi (- z) = 1 / 2 ^ nat z"
    by (simp add: power_int_minus_divide power_int_nonneg_exp)
  then show ?thesis using True by simp
next
  case False
  then have "(2 :: real) powi (- z) = 2 ^ nat (- z)"
    by (simp add: power_int_nonneg_exp)
  then show ?thesis using False by simp
qed

lemma div_between:
  fixes N D k :: int
  assumes "0 < D" and "k * D \<le> N" and "N < 2 * k * D"
  shows "k \<le> N div D" and "N div D < 2 * k"
proof -
  have "k * D div D \<le> N div D"
    using assms(2,1) by (rule zdiv_mono1)
  then show "k \<le> N div D"
    using assms(1) by simp
  have low: "N div D * D \<le> N"
  proof -
    have "N = N div D * D + N mod D" by simp
    moreover have "0 \<le> N mod D" using assms(1) by simp
    ultimately show ?thesis by linarith
  qed
  show "N div D < 2 * k"
  proof (rule ccontr)
    assume "\<not> N div D < 2 * k"
    then have "2 * k \<le> N div D" by simp
    then have "2 * k * D \<le> N div D * D"
      using assms(1) by (simp add: mult_right_mono)
    with low assms(3) show False by linarith
  qed
qed

lemma nearest_even_range:
  fixes N D k :: int
  assumes "0 < D" and "k * D \<le> N" and "N < 2 * k * D"
  shows "k \<le> nearest_even N D" and "nearest_even N D \<le> 2 * k"
  using div_between [OF assms] by (auto simp: nearest_even_def Let_def)

lemma log2floor_real:
  assumes "0 < n"
  shows "(2 :: real) powi log2floor n \<le> real_of_int n
           \<and> real_of_int n < 2 powi (log2floor n + 1)"
proof -
  define k where "k = nat (log2floor n)"
  have lk: "log2floor n = int k"
    using log2floor_nonneg [of n] by (simp add: k_def)
  have "2 ^ k \<le> n" "n < 2 * 2 ^ k"
    using log2floor_bounds [of n] assms by (simp_all add: k_def)
  then have "real_of_int (2 ^ k) \<le> real_of_int n"
    "real_of_int n < real_of_int (2 * 2 ^ k)"
    by (simp_all only: of_int_le_iff of_int_less_iff)
  then have b: "(2 :: real) ^ k \<le> real_of_int n" "real_of_int n < 2 ^ Suc k"
    by simp_all
  have "int k + 1 = int (Suc k)" by simp
  then have p2: "(2 :: real) powi (int k + 1) = 2 ^ Suc k"
    by (simp only: power_int_of_nat)
  have p1: "(2 :: real) powi int k = 2 ^ k"
    by (rule power_int_of_nat)
  show ?thesis
    using b by (simp only: lk p1 p2 simp_thms)
qed

text \<open>The exponent that \<open>round_ratio\<close> chooses is the exponent of the leading bit.\<close>

lemma leading_exponent:
  fixes n d :: int
  assumes "0 < n" and "0 < d"
    and e0_def: "e0 = log2floor n - log2floor d"
    and e_def: "e = (if d * 2 ^ nat e0 \<le> n * 2 ^ nat (- e0) then e0 else e0 - 1)"
  shows "2 powi e \<le> real_of_int n / real_of_int d"
    and "real_of_int n / real_of_int d < 2 powi (e + 1)"
proof -
  let ?r = "real_of_int n / real_of_int d"
  have rn: "(2 :: real) powi log2floor n \<le> real_of_int n"
    "real_of_int n < 2 powi (log2floor n + 1)"
    using log2floor_real [OF assms(1)] by simp_all
  have rd: "(2 :: real) powi log2floor d \<le> real_of_int d"
    "real_of_int d < 2 powi (log2floor d + 1)"
    using log2floor_real [OF assms(2)] by simp_all
  have dpos: "0 < real_of_int d" using assms(2) by simp
  have test: "d * 2 ^ nat e0 \<le> n * 2 ^ nat (- e0) \<longleftrightarrow> 2 powi e0 \<le> ?r"
  proof -
    have pos: "0 < real_of_int (d * 2 ^ nat e0)" using assms(2) by simp
    have "d * 2 ^ nat e0 \<le> n * 2 ^ nat (- e0)
            \<longleftrightarrow> real_of_int (d * 2 ^ nat e0) \<le> real_of_int (n * 2 ^ nat (- e0))"
      by (simp only: of_int_le_iff)
    also have "\<dots> \<longleftrightarrow> 1 \<le> real_of_int (n * 2 ^ nat (- e0)) / real_of_int (d * 2 ^ nat e0)"
      using pos by (simp only: le_divide_eq_1_pos)
    also have "\<dots> \<longleftrightarrow> 1 \<le> ?r * 2 powi (- e0)"
      using scaled_ratio [OF assms(2), of n e0] by simp
    also have "\<dots> \<longleftrightarrow> 1 \<le> ?r / 2 powi e0"
      by (simp only: power_int_minus divide_inverse)
    also have "\<dots> \<longleftrightarrow> 1 * 2 powi e0 \<le> ?r"
      by (rule pos_le_divide_eq) simp
    also have "\<dots> \<longleftrightarrow> 2 powi e0 \<le> ?r"
      by simp
    finally show ?thesis .
  qed
  have upper0: "?r < 2 powi (e0 + 1)"
  proof -
    have "?r < 2 powi (log2floor n + 1) / 2 powi log2floor d"
      using rn(2) rd(1) assms(1) by (intro frac_less) simp_all
    also have "\<dots> = 2 powi (e0 + 1)"
      by (simp add: e0_def power_int_diff power_int_add)
    finally show ?thesis .
  qed
  have lower0: "2 powi (e0 - 1) \<le> ?r"
  proof -
    have "2 powi log2floor n / 2 powi (log2floor d + 1) \<le> ?r"
      using rn(1) rd(2) assms(1,2) by (intro frac_le) simp_all
    moreover have "2 powi log2floor n / 2 powi (log2floor d + 1) = (2 :: real) powi (e0 - 1)"
      by (simp add: e0_def power_int_diff power_int_add)
    ultimately show ?thesis by simp
  qed
  show "2 powi e \<le> ?r"
    using test lower0 by (simp add: e_def)
  show "?r < 2 powi (e + 1)"
    using test upper0 by (auto simp: e_def not_le)
qed

lemma half_abs:
  fixes x y :: real
  assumes "\<bar>2 * x\<bar> \<le> y"
  shows "\<bar>x\<bar> \<le> y / 2"
proof -
  have "\<bar>2 * x\<bar> = 2 * \<bar>x\<bar>" by (simp add: abs_mult)
  with assms show ?thesis by simp
qed

text \<open>
  \<open>round_ratio p n d\<close> is the quotient \<open>n / d\<close> rounded to \<open>p\<close> significant bits:
  its significand has \<open>p\<close> bits (or is the next power of two), and it is within half
  a unit in the last place of the quotient.
\<close>

lemma round_ratio_nearest:
  fixes n d :: int
  assumes "0 < n" and "0 < d" and "0 < p"
  shows "2 ^ (p - 1) \<le> fst (round_ratio p n d)"
    and "fst (round_ratio p n d) \<le> 2 ^ p"
    and "\<bar>real_of_int (fst (round_ratio p n d)) * 2 powi snd (round_ratio p n d)
            - real_of_int n / real_of_int d\<bar>
          \<le> 2 powi snd (round_ratio p n d) / 2"
proof -
  define e0 where "e0 = log2floor n - log2floor d"
  define e where "e = (if d * 2 ^ nat e0 \<le> n * 2 ^ nat (- e0) then e0 else e0 - 1)"
  define s where "s = e - int p + 1"
  define N where "N = n * 2 ^ nat (- s)"
  define D where "D = d * 2 ^ nat s"
  define q where "q = nearest_even N D"
  define k :: int where "k = 2 ^ (p - 1)"
  let ?r = "real_of_int n / real_of_int d"
  have rr: "round_ratio p n d = (q, s)"
    using assms(1)
    by (simp only: round_ratio_def Let_def e0_def [symmetric] e_def [symmetric]
          s_def [symmetric] N_def [symmetric] D_def [symmetric] q_def [symmetric])
       simp
  have Dpos: "0 < D" using assms(2) by (simp add: D_def)
  have ratio: "real_of_int N / real_of_int D = ?r * 2 powi (- s)"
    unfolding N_def D_def by (rule scaled_ratio [OF assms(2)])
  have lead: "2 powi e \<le> ?r" "?r < 2 powi (e + 1)"
    using leading_exponent [OF assms(1,2) e0_def e_def] by simp_all
  have spos: "(0 :: real) < 2 powi (- s)" by simp
  have es: "e + - s = int (p - 1)" "e + 1 + - s = int p"
    using assms(3) by (simp_all add: s_def)
  have k2: "2 * k = 2 ^ p"
  proof -
    have "p = Suc (p - 1)" using assms(3) by simp
    then have "(2 :: int) ^ p = 2 ^ Suc (p - 1)" by (rule arg_cong)
    then show ?thesis by (simp add: k_def)
  qed
  have "2 powi e * 2 powi (- s) \<le> ?r * 2 powi (- s)"
    using lead(1) spos by (simp only: mult_le_cancel_right_pos)
  moreover have "(2 :: real) powi e * 2 powi (- s) = 2 powi (e + - s)"
    by (rule power_int_add [symmetric]) simp
  ultimately have "2 powi int (p - 1) \<le> real_of_int N / real_of_int D"
    by (simp only: ratio es)
  then have "real_of_int k \<le> real_of_int N / real_of_int D"
    by (simp add: k_def)
  then have "real_of_int k * real_of_int D \<le> real_of_int N"
    using Dpos by (simp add: pos_le_divide_eq)
  then have "real_of_int (k * D) \<le> real_of_int N"
    by simp
  then have low: "k * D \<le> N"
    by (simp only: of_int_le_iff)
  have "?r * 2 powi (- s) < 2 powi (e + 1) * 2 powi (- s)"
    using lead(2) spos by (simp only: mult_less_cancel_right_pos)
  moreover have "(2 :: real) powi (e + 1) * 2 powi (- s) = 2 powi (e + 1 + - s)"
    by (rule power_int_add [symmetric]) simp
  ultimately have "real_of_int N / real_of_int D < 2 powi int p"
    by (simp only: ratio es)
  then have "real_of_int N / real_of_int D < real_of_int (2 * k)"
    by (simp add: k2)
  then have "real_of_int N < real_of_int (2 * k) * real_of_int D"
    using Dpos by (simp add: pos_divide_less_eq)
  then have "real_of_int N < real_of_int (2 * k * D)"
    by simp
  then have high: "N < 2 * k * D"
    by (simp only: of_int_less_iff)
  have range: "k \<le> q" "q \<le> 2 * k"
    unfolding q_def using nearest_even_range [OF Dpos low high] by simp_all
  show "2 ^ (p - 1) \<le> fst (round_ratio p n d)"
    using range(1) by (simp add: rr k_def)
  show "fst (round_ratio p n d) \<le> 2 ^ p"
    using range(2) by (simp add: rr k2)
  have "\<bar>2 * (q * D - N)\<bar> \<le> D"
    unfolding q_def by (rule nearest_even_nearest [OF Dpos])
  then have "real_of_int \<bar>2 * (q * D - N)\<bar> \<le> real_of_int D"
    by (simp only: of_int_le_iff)
  then have "\<bar>2 * (real_of_int q * real_of_int D - real_of_int N)\<bar> \<le> real_of_int D"
    by simp
  then have "\<bar>real_of_int q * real_of_int D - real_of_int N\<bar> \<le> real_of_int D / 2"
    by (rule half_abs)
  moreover have "real_of_int q * real_of_int D - real_of_int N
                   = (real_of_int q - real_of_int N / real_of_int D) * real_of_int D"
    using Dpos by (simp add: field_simps)
  ultimately have "\<bar>real_of_int q - real_of_int N / real_of_int D\<bar> * real_of_int D
                     \<le> (1 / 2) * real_of_int D"
    using Dpos by (simp add: abs_mult)
  then have close: "\<bar>real_of_int q - ?r * 2 powi (- s)\<bar> \<le> 1 / 2"
    using Dpos by (simp only: ratio [symmetric] mult_le_cancel_right_pos of_int_0_less_iff)
  have s2: "(0 :: real) < 2 powi s" by simp
  have inv: "(2 :: real) powi (- s) * 2 powi s = 1"
    by (simp add: power_int_minus)
  have "real_of_int q * 2 powi s - ?r = (real_of_int q - ?r * 2 powi (- s)) * 2 powi s"
    using inv by (simp add: algebra_simps)
  then have "\<bar>real_of_int q * 2 powi s - ?r\<bar> = \<bar>real_of_int q - ?r * 2 powi (- s)\<bar> * 2 powi s"
    using s2 by (simp add: abs_mult)
  also have "\<dots> \<le> (1 / 2) * 2 powi s"
    using close s2 by (simp only: mult_le_cancel_right_pos)
  finally show "\<bar>real_of_int (fst (round_ratio p n d)) * 2 powi snd (round_ratio p n d)
            - real_of_int n / real_of_int d\<bar>
          \<le> 2 powi snd (round_ratio p n d) / 2"
    by (simp add: rr)
qed

lemma nearest_even_tie:
  "2 * (n mod d) = d \<Longrightarrow> even (nearest_even n d)"
  by (auto simp: nearest_even_def Let_def)

text \<open>\<open>bplus\<close> is the exact sum, and \<open>bround\<close> rounds a value to the nearest one.\<close>

lemma shift_exponent:
  assumes "e \<le> e1"
  shows "(2 :: real) ^ nat (e1 - e) * 2 powi e = 2 powi e1"
proof -
  have "(2 :: real) ^ nat (e1 - e) = 2 powi int (nat (e1 - e))"
    by (rule power_int_of_nat [symmetric])
  also have "int (nat (e1 - e)) = e1 - e"
    using assms by simp
  finally have "(2 :: real) ^ nat (e1 - e) * 2 powi e = 2 powi (e1 - e) * 2 powi e"
    by simp
  also have "\<dots> = 2 powi (e1 - e + e)"
    by (rule power_int_add [symmetric]) simp
  finally show ?thesis by simp
qed

lemma bplus_exact:
  "real_of_int (fst (bplus x y)) * 2 powi snd (bplus x y)
     = real_of_int (fst x) * 2 powi snd x + real_of_int (fst y) * 2 powi snd y"
proof -
  obtain m1 e1 where x: "x = (m1, e1)" by (cases x)
  obtain m2 e2 where y: "y = (m2, e2)" by (cases y)
  define e where "e = min e1 e2"
  have le: "e \<le> e1" "e \<le> e2" by (simp_all add: e_def)
  have "bplus x y = (m1 * 2 ^ nat (e1 - e) + m2 * 2 ^ nat (e2 - e), e)"
    by (simp add: bplus_def x y Let_def e_def)
  then have "real_of_int (fst (bplus x y)) * 2 powi snd (bplus x y)
      = real_of_int m1 * (2 ^ nat (e1 - e) * 2 powi e)
        + real_of_int m2 * (2 ^ nat (e2 - e) * 2 powi e)"
    by (simp add: algebra_simps)
  then show ?thesis
    by (simp only: shift_exponent [OF le(1)] shift_exponent [OF le(2)] x y fst_conv snd_conv)
qed

lemma bround_nearest:
  assumes "fst x \<noteq> 0" and "0 < p"
  shows "2 ^ (p - 1) \<le> \<bar>fst (bround p x)\<bar>"
    and "\<bar>fst (bround p x)\<bar> \<le> 2 ^ p"
    and "\<bar>real_of_int (fst (bround p x)) * 2 powi snd (bround p x)
            - real_of_int (fst x) * 2 powi snd x\<bar>
          \<le> 2 powi snd (bround p x) / 2"
proof -
  obtain m e where x: "x = (m, e)" by (cases x)
  define n where "n = \<bar>m\<bar> * 2 ^ nat e"
  define d :: int where "d = 1 * 2 ^ nat (- e)"
  define q where "q = fst (round_ratio p n d)"
  define s where "s = snd (round_ratio p n d)"
  have m: "m \<noteq> 0" using assms(1) by (simp add: x)
  have npos: "0 < n" using m by (simp add: n_def)
  have dpos: "0 < d" by (simp add: d_def)
  have br: "bround p x = (sgn m * q, s)"
    by (simp add: bround_def x n_def d_def q_def s_def split: prod.splits)
  have quot: "real_of_int n / real_of_int d = real_of_int \<bar>m\<bar> * 2 powi e"
    using scaled_ratio [of 1 "\<bar>m\<bar>" "- e"] by (simp add: n_def d_def)
  have q: "2 ^ (p - 1) \<le> q" "q \<le> 2 ^ p"
    unfolding q_def using round_ratio_nearest(1,2) [OF npos dpos assms(2)] by simp_all
  have "(0 :: int) < 2 ^ (p - 1)" by simp
  with q(1) have qpos: "0 < q" by linarith
  have sg: "\<bar>sgn m * q\<bar> = q"
    using m qpos by (simp add: abs_mult)
  show "2 ^ (p - 1) \<le> \<bar>fst (bround p x)\<bar>"
    using q(1) by (simp only: br fst_conv sg)
  show "\<bar>fst (bround p x)\<bar> \<le> 2 ^ p"
    using q(2) by (simp only: br fst_conv sg)
  have near: "\<bar>real_of_int q * 2 powi s - real_of_int \<bar>m\<bar> * 2 powi e\<bar> \<le> 2 powi s / 2"
    using round_ratio_nearest(3) [OF npos dpos assms(2)]
    by (simp only: q_def [symmetric] s_def [symmetric] quot)
  have "real_of_int (sgn m * q) * 2 powi s - real_of_int m * 2 powi e
          = real_of_int (sgn m) * (real_of_int q * 2 powi s - real_of_int \<bar>m\<bar> * 2 powi e)"
  proof -
    have "m = sgn m * \<bar>m\<bar>" by (simp add: mult_sgn_abs)
    then have "real_of_int m = real_of_int (sgn m) * real_of_int \<bar>m\<bar>"
      by (metis of_int_mult)
    then show ?thesis by (simp add: algebra_simps)
  qed
  moreover have "\<bar>real_of_int (sgn m)\<bar> = 1"
    using m by (simp add: sgn_if)
  ultimately have "\<bar>real_of_int (sgn m * q) * 2 powi s - real_of_int m * 2 powi e\<bar>
          = \<bar>real_of_int q * 2 powi s - real_of_int \<bar>m\<bar> * 2 powi e\<bar>"
    by (simp only: abs_mult mult_1)
  with near show "\<bar>real_of_int (fst (bround p x)) * 2 powi snd (bround p x)
            - real_of_int (fst x) * 2 powi snd x\<bar>
          \<le> 2 powi snd (bround p x) / 2"
    by (simp only: br [unfolded x] x fst_conv snd_conv)
qed























end
